theory Spec2Isabelle
  imports Main "HOL-Library.Sublist"
begin

section \<open>Values and errors\<close>

text \<open>
  The values the TypeScript code passes around: \<open>undefined\<close>, \<open>null\<close>, booleans,
  strings, byte buffers and plain objects (a list of fields in insertion order). Strings
  are lists of code units, written with Isabelle's \<open>char\<close>.

  A thrown exception is a value of \<open>error\<close>: a \<open>TypeError\<close> of the runtime, an
  \<open>Error\<close> made by the code with its message, the \<open>AggregateError\<close> of
  \<open>Promise.any\<close> with the rejection reasons by position, the \<open>BadRequestException\<close>
  of the controller around its cause, the \<open>ValidationError\<close> of the pin model with the
  paths that fail, and \<open>Rejected\<close> for a failure reported by a collaborator (the IPFS
  client, the HTTP service, the database). A function that may
  throw returns \<open>error + 'a\<close>. A promise either settles, fulfilled (\<open>Some (Inr v)\<close>) or
  rejected (\<open>Some (Inl e)\<close>), or stays pending for ever (\<open>None\<close>).
\<close>

datatype jsval =
    Undefined
  | Null
  | Bool bool
  | Str string
  | Buf string
  | Obj "(string \<times> jsval) list"

datatype error =
    TypeError
  | Error string
  | AggregateError "error option list"
  | BadRequestException error
  | ValidationError "string list"
  | Rejected string

type_synonym 'a promise = "(error + 'a) option"

section \<open>Regular expressions of the CID extractor\<close>

text \<open>
  \<open>extractCID\<close> builds two \<open>RegExp\<close> objects and calls \<open>exec\<close> on them. The
  constructs they use are literal text, the wildcard \<open>.\<close>, the greedy \<open>[^?]+\<close>, a greedy
  optional group \<open>(...)?\<close>, capture groups and sequencing. The matcher below is the
  backtracking matcher of ECMAScript for these constructs: for a pattern and an input
  position it lists every way to match, in the order in which backtracking tries them,
  each as the remaining input and the captures made so far. The first element of the
  list is the match that \<open>exec\<close> reports.
\<close>

datatype rx =
    Lit string
  | AnyChar
  | PlusNot char
  | Seq rx rx
  | Opt rx
  | Grp nat rx

type_synonym caps = "nat \<Rightarrow> string option"

text \<open>Line terminators, which \<open>.\<close> does not match (those among the 8-bit code units).\<close>

definition line_terminator :: "char \<Rightarrow> bool" where
  "line_terminator c = (c = CHR 0x0A \<or> c = CHR 0x0D)"

text \<open>
  \<open>[^c]+\<close> at input \<open>s\<close>: the remaining inputs after one or more characters other
  than \<open>c\<close>, the longest run first (greedy), then each shorter one.
\<close>

fun plus_not :: "char \<Rightarrow> string \<Rightarrow> string list" where
  "plus_not c [] = []"
| "plus_not c (x # xs) = (if x = c then [] else plus_not c xs @ [xs])"

fun ms :: "rx \<Rightarrow> string \<times> caps \<Rightarrow> (string \<times> caps) list" where
  "ms (Lit l) (s, c) = (if prefix l s then [(drop (length l) s, c)] else [])"
| "ms AnyChar (s, c) =
     (case s of [] \<Rightarrow> [] | x # xs \<Rightarrow> if line_terminator x then [] else [(xs, c)])"
| "ms (PlusNot ch) (s, c) = map (\<lambda>s'. (s', c)) (plus_not ch s)"
| "ms (Seq a b) st = concat (map (ms b) (ms a st))"
| "ms (Opt a) (s, c) = filter (\<lambda>(s', c'). length s' < length s) (ms a (s, c)) @ [(s, c)]"
| "ms (Grp n a) (s, c) =
     map (\<lambda>(s', c'). (s', c'(n \<mapsto> take (length s - length s') s))) (ms a (s, c))"

text \<open>The number of capture groups of a pattern (the highest group index).\<close>

fun ngroups :: "rx \<Rightarrow> nat" where
  "ngroups (Lit l) = 0"
| "ngroups AnyChar = 0"
| "ngroups (PlusNot ch) = 0"
| "ngroups (Seq a b) = max (ngroups a) (ngroups b)"
| "ngroups (Opt a) = ngroups a"
| "ngroups (Grp n a) = max n (ngroups a)"

text \<open>
  \<open>RegExp.prototype.exec\<close> without flags: the match is tried at position 0, then 1, and
  so on up to the end of the input; the first position with a match wins. The result is
  \<open>null\<close> (\<open>None\<close>) or the match array: the matched text, then one entry per group, which
  is \<open>undefined\<close> (\<open>None\<close>) for a group that took no part in the match.
\<close>

fun exec_from :: "rx \<Rightarrow> string \<Rightarrow> caps option" where
  "exec_from r [] =
     (case ms r ([], Map.empty) of
        [] \<Rightarrow> None
      | (s', c) # _ \<Rightarrow> Some (c(0 \<mapsto> [])))"
| "exec_from r (x # xs) =
     (case ms r (x # xs, Map.empty) of
        [] \<Rightarrow> exec_from r xs
      | (s', c) # _ \<Rightarrow> Some (c(0 \<mapsto> take (length (x # xs) - length s') (x # xs))))"

definition exec :: "rx \<Rightarrow> string \<Rightarrow> string option list option" where
  "exec r s = map_option (\<lambda>c. map c [0..<Suc (ngroups r)]) (exec_from r s)"

text \<open>
  \<open>lodash.nth(array, n)\<close> for \<open>n \<ge> 0\<close>: \<open>undefined\<close> for a null array and for an index
  out of range, the element otherwise.
\<close>

definition lodash_nth :: "string option list option \<Rightarrow> nat \<Rightarrow> string option" where
  "lodash_nth arr n =
     (case arr of
        None \<Rightarrow> None
      | Some xs \<Rightarrow> if n < length xs then xs ! n else None)"

text \<open>
  \<open>String.prototype.replace\<close> with a string pattern: only the first occurrence is
  replaced, wherever it is; without an occurrence the string is returned as it is.
\<close>

fun replace_first :: "string \<Rightarrow> string \<Rightarrow> string \<Rightarrow> string" where
  "replace_first pat rep [] = (if pat = [] then rep else [])"
| "replace_first pat rep (c # cs) =
     (if prefix pat (c # cs) then rep @ drop (length pat) (c # cs)
      else c # replace_first pat rep cs)"

section \<open>The CID extractor\<close>

text \<open>
  \<^verbatim>\<open>new RegExp('(https:\/\/[^?]+\/ipfs\/)?([^?]+)', '')\<close>. The pattern is given as a
  string literal, in which \<^verbatim>\<open>\/\<close> is the character \<open>/\<close>.
\<close>

definition regex :: rx where
  "regex =
     Seq (Opt (Grp 1 (Seq (Lit ''https://'') (Seq (PlusNot CHR ''?'') (Lit ''/ipfs/'')))))
         (Grp 2 (PlusNot CHR ''?''))"

text \<open>
  \<^verbatim>\<open>new RegExp('https:\/\/([^?]+)\.ipfs\.dweb\.link\/', '')\<close>. In the string literal
  \<^verbatim>\<open>\.\<close> is the character \<open>.\<close>, so each dot reaches the \<open>RegExp\<close> constructor
  unescaped and is the wildcard.
\<close>

definition dweb :: rx where
  "dweb =
     Seq (Lit ''https://'')
       (Seq (Grp 1 (PlusNot CHR ''?''))
         (Seq AnyChar (Seq (Lit ''ipfs'')
           (Seq AnyChar (Seq (Lit ''dweb'')
             (Seq AnyChar (Lit ''link/'')))))))"

text \<open>
  Two parts of these patterns, named for the proofs: the optional gateway prefix of
  \<open>regex\<close> and what follows the group in \<open>dweb\<close>.
\<close>

definition gateway_prefix :: rx where
  "gateway_prefix = Grp 1 (Seq (Lit ''https://'') (Seq (PlusNot CHR ''?'') (Lit ''/ipfs/'')))"

definition dweb_tail :: rx where
  "dweb_tail =
     Seq AnyChar (Seq (Lit ''ipfs'')
       (Seq AnyChar (Seq (Lit ''dweb'')
         (Seq AnyChar (Lit ''link/'')))))"

definition of_undef :: "string option \<Rightarrow> jsval" where
  "of_undef x = (case x of None \<Rightarrow> Undefined | Some s \<Rightarrow> Str s)"

text \<open>
  \<open>_Base.extractCID\<close>. The argument is \<open>None\<close> for \<open>null\<close> or \<open>undefined\<close>; the empty
  string is falsy as well. \<open>cid.endsWith\<close> on an \<open>undefined\<close> \<open>cid\<close> throws a
  \<open>TypeError\<close>.
\<close>

definition extractCID :: "string option \<Rightarrow> error + jsval" where
  "extractCID url =
     (case url of
        None \<Rightarrow> Inr Null
      | Some u \<Rightarrow>
          if u = [] then Inr Null
          else
            let CID = exec regex (replace_first ''ipfs://'' [] u);
                cid = lodash_nth CID 2
            in case cid of
                 None \<Rightarrow> Inl TypeError
               | Some c \<Rightarrow>
                   if suffix ''ipfs.dweb.link/'' c
                   then (let match = exec dweb c in Inr (of_undef (lodash_nth match 1)))
                   else Inr (Str c))"

section \<open>Promise.any\<close>

text \<open>
  \<open>Promise.any\<close> over the promises \<open>p\<^sub>0, \<dots>, p\<^sub>n\<^sub>-\<^sub>1\<close>. \<open>outs ! i\<close> is how \<open>p\<^sub>i\<close> settles
  when it does, and the schedule lists the indices of the promises in the order in which
  they settle; a promise that is not in the schedule never settles. The first
  fulfilment resolves the result. A rejection is stored at the promise's position and
  counted (once: a second event of the same promise, or an index of no promise, is
  ignored); when every promise has been rejected, the result is rejected with the
  \<open>AggregateError\<close> of the stored reasons. Without any promise the result is rejected at
  once.
\<close>

fun any_run ::
  "(error + 'a) list \<Rightarrow> error option list \<Rightarrow> nat \<Rightarrow> nat list \<Rightarrow> 'a promise" where
  "any_run outs errors remaining [] = None"
| "any_run outs errors remaining (i # sched) =
     (if i < length outs \<and> errors ! i = None then
        (case outs ! i of
           Inr v \<Rightarrow> Some (Inr v)
         | Inl e \<Rightarrow>
             if remaining - 1 = 0 then Some (Inl (AggregateError (errors[i := Some e])))
             else any_run outs (errors[i := Some e]) (remaining - 1) sched)
      else any_run outs errors remaining sched)"

definition promise_any :: "(error + 'a) list \<Rightarrow> nat list \<Rightarrow> 'a promise" where
  "promise_any outs sched =
     (if outs = [] then Some (Inl (AggregateError []))
      else any_run outs (replicate (length outs) None) (length outs) sched)"

text \<open>
  For the proofs: the promises that have not been rejected so far, and the invariant of
  the race, that the stored reasons and the counter agree with the outcomes.
\<close>

definition unsettled :: "error option list \<Rightarrow> nat set" where
  "unsettled errors = {k. k < length errors \<and> errors ! k = None}"

definition race_inv :: "(error + 'a) list \<Rightarrow> error option list \<Rightarrow> nat \<Rightarrow> bool" where
  "race_inv outs errors remaining \<longleftrightarrow>
     length errors = length outs \<and> remaining = card (unsettled errors) \<and>
     (\<forall>k<length outs. \<forall>e. errors ! k = Some e \<longrightarrow> outs ! k = Inl e)"

section \<open>The gateway provider\<close>

record options =
  gatewaysUrls :: "string list"
  nodeUrl :: string

text \<open>The response of the HTTP service, of which the code reads the \<open>data\<close> field.\<close>

record response =
  data :: jsval

text \<open>
  The HTTP service: how the request for a URL ends, with the \<open>responseType\<close> of the
  request configuration when one is given.
\<close>

type_synonym http_service = "string \<Rightarrow> string option \<Rightarrow> error + response"

text \<open>
  \<open>_Gateway.get\<close>: one request per configured gateway, for \<open>gateway + CID\<close>, raced with
  \<open>Promise.any\<close>; the \<open>data\<close> of the winning response is the result.
\<close>

definition Gateway_get :: "options \<Rightarrow> http_service \<Rightarrow> nat list \<Rightarrow> string \<Rightarrow> jsval promise" where
  "Gateway_get opts http sched CID =
     (let promises = map (\<lambda>gateway. http (gateway @ CID) None) (gatewaysUrls opts)
      in case promise_any promises sched of
           None \<Rightarrow> None
         | Some (Inl e) \<Rightarrow> Some (Inl e)
         | Some (Inr resp) \<Rightarrow> Some (Inr (data resp)))"

text \<open>A value inside a template literal.\<close>

fun template :: "jsval \<Rightarrow> string" where
  "template Undefined = ''undefined''"
| "template Null = ''null''"
| "template (Bool b) = (if b then ''true'' else ''false'')"
| "template (Str s) = s"
| "template (Buf s) = s"
| "template (Obj fs) = ''[object Object]''"

text \<open>
  \<open>_Gateway.getFile\<close>: the CID is extracted from the URL, the gateways are raced for the
  bytes, and the type of the bytes is detected. The import of \<open>file-type\<close> and the call
  of \<open>fileTypeFromBuffer\<close> are a parameter: the detected type (\<open>undefined\<close> for an
  unknown one), or the error they throw, which rejects the read.
\<close>

definition Gateway_getFile ::
  "(jsval \<Rightarrow> error + jsval) \<Rightarrow> options \<Rightarrow> http_service \<Rightarrow> nat list \<Rightarrow> string \<Rightarrow> jsval promise" where
  "Gateway_getFile fileTypeFromBuffer opts http sched ipfsUrl =
     (case extractCID (Some ipfsUrl) of
        Inl e \<Rightarrow> Some (Inl e)
      | Inr CID \<Rightarrow>
          let promises =
                map (\<lambda>gateway. http (gateway @ template CID) (Some ''arraybuffer''))
                  (gatewaysUrls opts)
          in case promise_any promises sched of
               None \<Rightarrow> None
             | Some (Inl e) \<Rightarrow> Some (Inl e)
             | Some (Inr resp) \<Rightarrow>
                 let buffer = data resp
                 in case fileTypeFromBuffer buffer of
                      Inl e \<Rightarrow> Some (Inl e)
                    | Inr type \<Rightarrow>
                        Some (Inr (Obj [(''data'',
                          Obj [(''buffer'', buffer), (''type'', type)])])))"

section \<open>The node provider\<close>

text \<open>
  The IPFS HTTP client is a collaborator outside the code. It acts on the state \<open>'b\<close> of
  the IPFS node, of which nothing is assumed: \<open>add\<close> and \<open>pin_rm\<close> (\<open>client.pin.rm\<close>)
  return their outcome and the node's new state, \<open>cat\<close> reads the chunks of a CID or
  fails (a timeout is a failure).
\<close>

record 'b ipfs_client =
  add :: "string \<Rightarrow> 'b \<Rightarrow> (error + string) \<times> 'b"
  pin_rm :: "string \<Rightarrow> 'b \<Rightarrow> (error + unit) \<times> 'b"
  cat :: "string \<Rightarrow> 'b \<Rightarrow> error + string list"

text \<open>The pin documents of the ledger (\<open>_Pin\<close>), and the owner's credentials.\<close>

record pin_document =
  cid :: string
  owner :: string
  timestamp :: nat

record entity =
  walletId :: string

text \<open>The payload of a write event.\<close>

record payload =
  content :: string
  sender :: entity

text \<open>
  The operations of the pin model on the database. Each of them may fail; a failed
  operation leaves the collection as it was.
\<close>

datatype db_op = FindOne | Create | DeleteOne

text \<open>
  What a call of the node provider meets outside the code: the IPFS client, the faults
  of the database, the clock (\<open>Date.now()\<close>) and the event emitter given to the
  constructor. The emitter is \<open>None\<close> where the constructor got none
  (\<open>IpfsModule\<close> builds the node from the pin model, the options and the HTTP service
  only); otherwise it tells how \<open>emit\<close> ends for a topic and a payload: it returns
  (\<open>None\<close>), or it throws what a subscriber of the topic throws.
\<close>

record 'b env =
  client :: "'b ipfs_client"
  db_fault :: "db_op \<Rightarrow> error option"
  now :: nat
  eventEmitter :: "(string \<Rightarrow> payload \<Rightarrow> error option) option"

text \<open>
  The state the node provider acts on: the IPFS node behind the client, the collection
  of pin documents in insertion order, and the events handed to the event emitter, each
  with its topic.
\<close>

record 'b node_state =
  backing :: 'b
  ledger :: "pin_document list"
  emitted :: "(string \<times> payload) list"

text \<open>
  \<open>pinModel.findOne({ cid })\<close> is the first document with that CID, and
  \<open>pinModel.deleteOne({ cid })\<close> deletes the first document with that CID.
\<close>

definition findOne :: "string \<Rightarrow> pin_document list \<Rightarrow> pin_document option" where
  "findOne c docs = find (\<lambda>d. cid d = c) docs"

fun deleteOne :: "string \<Rightarrow> pin_document list \<Rightarrow> pin_document list" where
  "deleteOne c [] = []"
| "deleteOne c (d # docs) = (if cid d = c then docs else d # deleteOne c docs)"

text \<open>
  \<open>_Node.get\<close>. \<open>JSON.parse\<close> is a parameter: the parsed value, or \<open>None\<close> where it
  throws.
\<close>

definition Node_get ::
  "(string \<Rightarrow> jsval option) \<Rightarrow> 'b ipfs_client \<Rightarrow> 'b \<Rightarrow> string \<Rightarrow> error + jsval" where
  "Node_get JSON_parse cl b c =
     (if c = [] then Inl (Error ''Invalid CID'')
      else case cat cl c b of
             Inl e \<Rightarrow> Inl e
           | Inr chunks \<Rightarrow>
               let content = concat chunks
               in case JSON_parse content of
                    Some v \<Rightarrow> Inr (Obj [(''data'', v)])
                  | None \<Rightarrow> Inr (Obj [(''data'', Str content)]))"

text \<open>\<open>!CID\<close> for the result of \<open>extractCID\<close>.\<close>

fun falsy :: "jsval \<Rightarrow> bool" where
  "falsy Undefined = True"
| "falsy Null = True"
| "falsy (Bool b) = (\<not> b)"
| "falsy (Str s) = (s = [])"
| "falsy (Buf s) = False"
| "falsy (Obj fs) = False"

definition Node_getFile ::
  "(jsval \<Rightarrow> error + jsval) \<Rightarrow> 'b ipfs_client \<Rightarrow> 'b \<Rightarrow> string \<Rightarrow> error + jsval" where
  "Node_getFile fileTypeFromBuffer cl b ipfsUrl =
     (case extractCID (Some ipfsUrl) of
        Inl e \<Rightarrow> Inl e
      | Inr CID \<Rightarrow>
          if falsy CID then Inl (Error ''Invalid CID'')
          else case cat cl (template CID) b of
                 Inl e \<Rightarrow> Inl e
               | Inr chunks \<Rightarrow>
                   let buffer = Buf (concat chunks)
                   in case fileTypeFromBuffer buffer of
                        Inl e \<Rightarrow> Inl e
                      | Inr type \<Rightarrow>
                          Inr (Obj [(''data'',
                            Obj [(''buffer'', buffer), (''type'', type)])]))"

text \<open>
  \<open>pinModel.create\<close> with a CID and an owner: the schema requires both, and a
  required string must not be empty; the document is validated first, then written.
\<close>

definition pinModel_create :: "'b env \<Rightarrow> string \<Rightarrow> string \<Rightarrow> error + pin_document" where
  "pinModel_create env c who =
     (let paths = (if c = [] then [''cid''] else []) @ (if who = [] then [''owner''] else [])
      in if paths \<noteq> [] then Inl (ValidationError paths)
         else case db_fault env Create of
                Some e \<Rightarrow> Inl e
              | None \<Rightarrow> Inr \<lparr>cid = c, owner = who, timestamp = now env\<rparr>)"

text \<open>
  \<open>_Node.pin\<close>: the content is added to the IPFS node, a pin document is created for
  the CID, and with \<open>broadcast\<close> an \<open>ipfs:write\<close> event is given to
  \<open>this.eventEmitter.emit\<close>. All of it is inside one \<open>try\<close> whose \<open>catch\<close>
  throws the error on: a failing \<open>emit\<close>, and the \<open>TypeError\<close> of calling it on a
  missing emitter, fail the pin after the document has been written.
\<close>

definition pin ::
  "'b env \<Rightarrow> string \<Rightarrow> entity \<Rightarrow> bool \<Rightarrow> 'b node_state \<Rightarrow> (error + string) \<times> 'b node_state" where
  "pin env text who broadcast st =
     (case add (client env) text (backing st) of
        (Inl e, b') \<Rightarrow> (Inl e, st\<lparr>backing := b'\<rparr>)
      | (Inr c, b') \<Rightarrow>
          (case pinModel_create env c (walletId who) of
             Inl e \<Rightarrow> (Inl e, st\<lparr>backing := b'\<rparr>)
           | Inr doc \<Rightarrow>
               let st1 = st\<lparr>backing := b', ledger := ledger st @ [doc]\<rparr>
               in if broadcast then
                    (case eventEmitter env of
                       None \<Rightarrow> (Inl TypeError, st1)
                     | Some emit \<Rightarrow>
                         let st2 = st1\<lparr>emitted := emitted st1 @
                                     [(''ipfs:write'', \<lparr>content = text, sender = who\<rparr>)]\<rparr>
                         in (case emit ''ipfs:write'' \<lparr>content = text, sender = who\<rparr> of
                               Some e \<Rightarrow> (Inl e, st2)
                             | None \<Rightarrow> (Inr c, st2)))
                  else (Inr c, st1)))"

text \<open>
  \<open>_Node.handleIpfsBroadcastWrite\<close>: pins the payload without broadcasting; returns
  \<open>false\<close> where the pin throws and nothing (\<open>undefined\<close>) otherwise.
\<close>

definition handleIpfsBroadcastWrite ::
  "'b env \<Rightarrow> payload \<Rightarrow> 'b node_state \<Rightarrow> (error + jsval) \<times> 'b node_state" where
  "handleIpfsBroadcastWrite env p st =
     (case pin env (content p) (sender p) False st of
        (Inl e, st') \<Rightarrow> (Inr (Bool False), st')
      | (Inr c, st') \<Rightarrow> (Inr Undefined, st'))"

text \<open>
  The listeners this code registers with the event emitter (\<open>@OnEvent\<close>), each with
  its topic, and the delivery of an event: every listener registered for the event's
  topic runs on the payload. What a listener returns, or throws, is dropped.
\<close>

definition subscriptions ::
  "(string \<times> ('b env \<Rightarrow> payload \<Rightarrow> 'b node_state \<Rightarrow> (error + jsval) \<times> 'b node_state)) list" where
  "subscriptions = [(''ipfs:broadcast:write'', handleIpfsBroadcastWrite)]"

definition deliver :: "'b env \<Rightarrow> string \<times> payload \<Rightarrow> 'b node_state \<Rightarrow> 'b node_state" where
  "deliver env ev st =
     foldl (\<lambda>s (topic, listener). if topic = fst ev then snd (listener env (snd ev) s) else s)
       st subscriptions"

text \<open>\<open>_Node.unpin\<close>.\<close>

definition unpin ::
  "'b env \<Rightarrow> string \<Rightarrow> entity \<Rightarrow> 'b node_state \<Rightarrow> (error + bool) \<times> 'b node_state" where
  "unpin env c who st =
     (case db_fault env FindOne of
        Some e \<Rightarrow> (Inl e, st)
      | None \<Rightarrow>
          (case findOne c (ledger st) of
             None \<Rightarrow> (Inl (Error ''Content not pinned''), st)
           | Some pinData \<Rightarrow>
               if owner pinData \<noteq> walletId who
               then (Inl (Error ''Unauthorized: only content owner can unpin''), st)
               else
                 (case pin_rm (client env) c (backing st) of
                    (Inl e, b') \<Rightarrow> (Inl e, st\<lparr>backing := b'\<rparr>)
                  | (Inr u, b') \<Rightarrow>
                      (case db_fault env DeleteOne of
                         Some e \<Rightarrow> (Inl e, st\<lparr>backing := b'\<rparr>)
                       | None \<Rightarrow>
                           (Inr True,
                            st\<lparr>backing := b', ledger := deleteOne c (ledger st)\<rparr>)))))"

section \<open>The service and the controller\<close>

text \<open>
  The providers as the service sees them: the type tag and the two reads, each a
  promise. The service keeps them in a \<open>Map\<close> from the tag; an entry of the list
  replaces an earlier one with the same tag.
\<close>

datatype provider_type = node | gateway

record provider =
  ptype :: provider_type
  get :: "string \<Rightarrow> jsval promise"
  getFile :: "string \<Rightarrow> jsval promise"

record IpfsService =
  providers :: "provider_type \<rightharpoonup> provider"

definition IpfsService_new :: "provider list \<Rightarrow> IpfsService" where
  "IpfsService_new ps = \<lparr>providers = foldl (\<lambda>m p. m(ptype p \<mapsto> p)) Map.empty ps\<rparr>"

text \<open>
  A method call on \<open>this.providers.get(tag)\<close>: on a missing provider the call throws a
  \<open>TypeError\<close>, inside the \<open>try\<close> block around it.
\<close>

definition call ::
  "IpfsService \<Rightarrow> provider_type \<Rightarrow> (provider \<Rightarrow> string \<Rightarrow> jsval promise) \<Rightarrow> string \<Rightarrow> jsval promise" where
  "call svc tag method arg =
     (case providers svc tag of
        None \<Rightarrow> Some (Inl TypeError)
      | Some p \<Rightarrow> method p arg)"

text \<open>\<open>IpfsService.get\<close> and \<open>IpfsService.getFile\<close>.\<close>

definition IpfsService_get :: "IpfsService \<Rightarrow> string \<Rightarrow> jsval promise" where
  "IpfsService_get svc CID =
     (case call svc node get CID of
        None \<Rightarrow> None
      | Some (Inr r) \<Rightarrow> Some (Inr r)
      | Some (Inl error) \<Rightarrow>
          (case call svc gateway get CID of
             None \<Rightarrow> None
           | Some (Inr r) \<Rightarrow> Some (Inr r)
           | Some (Inl error) \<Rightarrow> Some (Inl error)))"

definition IpfsService_getFile :: "IpfsService \<Rightarrow> string \<Rightarrow> jsval promise" where
  "IpfsService_getFile svc ipfsUrl =
     (case call svc gateway getFile ipfsUrl of
        None \<Rightarrow> None
      | Some (Inr r) \<Rightarrow> Some (Inr r)
      | Some (Inl error) \<Rightarrow>
          (case call svc node getFile ipfsUrl of
             None \<Rightarrow> None
           | Some (Inr r) \<Rightarrow> Some (Inr r)
           | Some (Inl error) \<Rightarrow> Some (Inl error)))"

text \<open>
  Reading the property \<open>data\<close> of a value: a \<open>TypeError\<close> on \<open>undefined\<close> and \<open>null\<close>,
  the field of an object, and \<open>undefined\<close> where there is no such property.
\<close>

fun data_of :: "jsval \<Rightarrow> error + jsval" where
  "data_of Undefined = Inl TypeError"
| "data_of Null = Inl TypeError"
| "data_of (Obj fs) = (case map_of fs ''data'' of None \<Rightarrow> Inr Undefined | Some v \<Rightarrow> Inr v)"
| "data_of v = Inr Undefined"

text \<open>
  \<open>IpfsController.readContent\<close>: the \<open>data\<close> of what the service returns; every
  failure becomes a \<open>BadRequestException\<close>.
\<close>

definition readContent :: "IpfsService \<Rightarrow> string \<Rightarrow> jsval promise" where
  "readContent svc c =
     (case IpfsService_get svc c of
        None \<Rightarrow> None
      | Some (Inl error) \<Rightarrow> Some (Inl (BadRequestException error))
      | Some (Inr r) \<Rightarrow>
          (case data_of r of
             Inl error \<Rightarrow> Some (Inl (BadRequestException error))
           | Inr d \<Rightarrow> Some (Inr d)))"

text \<open>
  The two providers as the module wires them: the node provider over an IPFS client and
  the state of its node, the gateway provider over the HTTP service and a schedule of
  its requests.
\<close>

definition node_provider ::
  "(string \<Rightarrow> jsval option) \<Rightarrow> (jsval \<Rightarrow> error + jsval) \<Rightarrow> 'b ipfs_client \<Rightarrow> 'b \<Rightarrow> provider" where
  "node_provider JSON_parse fileTypeFromBuffer cl b =
     \<lparr>ptype = node,
      get = (\<lambda>c. Some (Node_get JSON_parse cl b c)),
      getFile = (\<lambda>u. Some (Node_getFile fileTypeFromBuffer cl b u))\<rparr>"

definition gateway_provider ::
  "(jsval \<Rightarrow> error + jsval) \<Rightarrow> options \<Rightarrow> http_service \<Rightarrow> nat list \<Rightarrow> provider" where
  "gateway_provider fileTypeFromBuffer opts http sched =
     \<lparr>ptype = gateway,
      get = Gateway_get opts http sched,
      getFile = Gateway_getFile fileTypeFromBuffer opts http sched\<rparr>"

section \<open>Concrete environments\<close>

text \<open>
  Two gateways, of which the first never answers a request successfully and the second
  answers with \<open>"A"\<close>, as bytes where the request asks for an \<open>arraybuffer\<close>; and two
  gateways that both fail.
\<close>

definition two_gateways :: options where
  "two_gateways = \<lparr>gatewaysUrls = [''https://a/ipfs/'', ''https://b/ipfs/''], nodeUrl = ''http://localhost:5001''\<rparr>"

definition fail_then_A :: http_service where
  "fail_then_A url responseType =
     (if url = ''https://b/ipfs/Qm''
      then Inr \<lparr>data = (if responseType = Some ''arraybuffer'' then Buf ''A'' else Str ''A'')\<rparr>
      else Inl (Rejected ''down''))"

definition always_fail :: http_service where
  "always_fail url responseType = Inl (Rejected ''down'')"

text \<open>
  An IPFS node in memory: its state is the list of the contents it has pinned, the CID of
  a content is \<open>Qm\<close> followed by the content, removing a pin that is not there fails,
  and so does reading a CID that is not pinned.
\<close>

definition cid_of :: "string \<Rightarrow> string" where
  "cid_of text = ''Qm'' @ text"

definition memory_client :: "string list ipfs_client" where
  "memory_client =
     \<lparr>add = (\<lambda>text b. (Inr (cid_of text), text # b)),
      pin_rm = (\<lambda>c b. if c \<in> set (map cid_of b)
                        then (Inr (), filter (\<lambda>t. cid_of t \<noteq> c) b)
                        else (Inl (Rejected ''not pinned''), b)),
      cat = (\<lambda>c b. case find (\<lambda>t. cid_of t = c) b of
                      Some t \<Rightarrow> Inr [t]
                    | None \<Rightarrow> Inl (Rejected ''timeout''))\<rparr>"

definition env0 :: "string list env" where
  "env0 =
     \<lparr>client = memory_client, db_fault = (\<lambda>operation. None), now = 0,
      eventEmitter = Some (\<lambda>topic p. None)\<rparr>"

text \<open>
  The same without an event emitter, as \<open>IpfsModule\<close> builds the node, and with an
  emitter on which a subscriber of \<open>ipfs:write\<close> throws.
\<close>

definition env_module :: "string list env" where
  "env_module = env0\<lparr>eventEmitter := None\<rparr>"

definition env_subscriber_throws :: "string list env" where
  "env_subscriber_throws =
     env0\<lparr>eventEmitter :=
       Some (\<lambda>topic p. if topic = ''ipfs:write'' then Some (Error ''subscriber failed'') else None)\<rparr>"

text \<open>The same, with an IPFS node that refuses to remove pins.\<close>

definition env_rm_fails :: "string list env" where
  "env_rm_fails =
     env0\<lparr>client := memory_client\<lparr>pin_rm := (\<lambda>c b. (Inl (Rejected ''rm failed''), b))\<rparr>\<rparr>"

definition st0 :: "string list node_state" where
  "st0 = \<lparr>backing = [], ledger = [], emitted = []\<rparr>"

definition alice :: entity where
  "alice = \<lparr>walletId = ''alice''\<rparr>"

definition bob :: entity where
  "bob = \<lparr>walletId = ''bob''\<rparr>"

text \<open>The state after \<open>alice\<close> has pinned \<open>hello\<close>, without broadcasting.\<close>

definition st_hello :: "string list node_state" where
  "st_hello =
     \<lparr>backing = [''hello''],
      ledger = [\<lparr>cid = ''Qmhello'', owner = ''alice'', timestamp = 0\<rparr>],
      emitted = []\<rparr>"

text \<open>
  A fragment of \<open>JSON.parse\<close>, enough for the examples: the literals are parsed, and
  every other text is taken not to be JSON. A type detection that recognises nothing
  in a buffer and throws on anything else.
  A pair of gateways of which the first serves the content \<open>hello\<close>.
\<close>

definition JSON_fragment :: "string \<Rightarrow> jsval option" where
  "JSON_fragment s =
     (if s = ''null'' then Some Null
      else if s = ''true'' then Some (Bool True)
      else if s = ''false'' then Some (Bool False)
      else None)"

definition no_type :: "jsval \<Rightarrow> error + jsval" where
  "no_type buffer = (case buffer of Buf b \<Rightarrow> Inr Undefined | _ \<Rightarrow> Inl TypeError)"

definition serve_hello :: http_service where
  "serve_hello url responseType =
     (if url = ''https://a/ipfs/Qmhello'' then Inr \<lparr>data = Str ''hello''\<rparr>
      else Inl (Rejected ''down''))"

text \<open>
  The node provider over the node in memory that has pinned \<open>hello\<close>, and the gateway
  provider over the two gateways of which the second answers \<open>"A"\<close> for the CID \<open>Qm\<close>,
  with the requests completing in the order of the list.
\<close>

definition node_hello :: provider where
  "node_hello = node_provider JSON_fragment no_type memory_client [''hello'']"

definition gateway_A :: provider where
  "gateway_A = gateway_provider no_type two_gateways fail_then_A [0, 1]"

section \<open>Properties of the CID extractor\<close>

subsection \<open>The matcher on strings without a question mark\<close>

lemma not_prefix_if_absent: "a \<in> set p \<Longrightarrow> a \<notin> set s \<Longrightarrow> \<not> prefix p s"
  by (auto simp: prefix_def)

lemma not_suffix_if_absent: "a \<in> set p \<Longrightarrow> a \<notin> set s \<Longrightarrow> \<not> suffix p s"
  by (auto simp: suffix_def)

lemma plus_not_suffixes: "t \<in> set (plus_not c s) \<Longrightarrow> set t \<subseteq> set s"
  by (induction s arbitrary: t) (auto split: if_splits)

lemma plus_not_stop: "r = [] \<or> hd r = c \<Longrightarrow> plus_not c r = []"
  by (cases r) auto

lemma plus_not_greedy:
  "c \<notin> set X \<Longrightarrow> X \<noteq> [] \<Longrightarrow> r = [] \<or> hd r = c \<Longrightarrow> \<exists>t. plus_not c (X @ r) = r # t"
proof (induction X)
  case Nil
  then show ?case by simp
next
  case (Cons x X)
  show ?case
  proof (cases "X = []")
    case True
    with Cons.prems show ?thesis by (simp add: plus_not_stop)
  next
    case False
    with Cons obtain t where "plus_not c (X @ r) = r # t" by auto
    with Cons.prems show ?thesis by auto
  qed
qed

lemma scheme_needs_slash: "prefix ''ipfs://'' s \<Longrightarrow> CHR ''/'' \<in> set (take 6 s)"
  by (auto simp: prefix_def)

lemma replace_first_skip:
  "CHR ''/'' \<notin> set X \<Longrightarrow> CHR ''/'' \<notin> set (take 5 r) \<Longrightarrow>
   replace_first ''ipfs://'' rep (X @ r) = X @ replace_first ''ipfs://'' rep r"
proof (induction X)
  case Nil
  then show ?case by simp
next
  case (Cons x X)
  have "\<not> prefix ''ipfs://'' ((x # X) @ r)"
  proof
    assume "prefix ''ipfs://'' ((x # X) @ r)"
    then have "CHR ''/'' \<in> set (take 6 ((x # X) @ r))" by (rule scheme_needs_slash)
    then have "CHR ''/'' \<in> set (x # X) \<or> CHR ''/'' \<in> set (take (6 - length (x # X)) r)"
      by (auto dest: in_set_takeD)
    moreover have "set (take (6 - length (x # X)) r) \<subseteq> set (take 5 r)"
      by (rule set_take_subset_set_take) simp
    ultimately show False using Cons.prems by auto
  qed
  with Cons show ?case by auto
qed


lemma plus_not_append_cases:
  "t \<in> set (plus_not c (X @ T)) \<Longrightarrow>
   t \<in> set (plus_not c T) \<or> (\<exists>Y. suffix Y X \<and> t = Y @ T)"
proof (induction X)
  case Nil
  then show ?case by simp
next
  case (Cons x X)
  then have "t \<in> set (plus_not c (X @ T)) \<or> t = X @ T"
    by (auto split: if_splits)
  then show ?case
  proof
    assume "t \<in> set (plus_not c (X @ T))"
    with Cons.IH show ?thesis by (auto simp: suffix_Cons)
  next
    assume "t = X @ T"
    then show ?thesis by (auto simp: suffix_Cons)
  qed
qed

lemma plus_not_through:
  "c \<notin> set X \<Longrightarrow> X \<noteq> [] \<Longrightarrow> \<exists>rest. plus_not c (X @ T) = plus_not c T @ T # rest"
proof (induction X)
  case Nil
  then show ?case by simp
next
  case (Cons x X)
  show ?case
  proof (cases "X = []")
    case True
    with Cons.prems show ?thesis by auto
  next
    case False
    with Cons obtain rest where "plus_not c (X @ T) = plus_not c T @ T # rest" by auto
    with Cons.prems show ?thesis by auto
  qed
qed


lemma regex_alt: "regex = Seq (Opt gateway_prefix) (Grp 2 (PlusNot CHR ''?''))"
  by (simp add: regex_def gateway_prefix_def)

lemma exec_regex_no_gateway:
  assumes "s \<noteq> []" "CHR ''?'' \<notin> set s" "ms gateway_prefix (s, Map.empty) = []"
  shows "exec regex s = Some [Some s, None, Some s]"
proof -
  from assms(1,2) plus_not_greedy [of "CHR ''?''" s "[]"]
  obtain t where t: "plus_not CHR ''?'' s = [] # t" by auto
  obtain x xs where s: "s = x # xs" using assms(1) by (cases s) auto
  have "ms regex (s, Map.empty) = map (\<lambda>(s', c'). (s', c'(2 \<mapsto> take (length s - length s') s)))
          (map (\<lambda>s'. (s', Map.empty)) ([] # t))"
    by (simp add: regex_alt assms(3) t)
  then have "exec_from regex s = Some (Map.empty(2 \<mapsto> s, 0 \<mapsto> s))"
    by (simp add: s)
  then show ?thesis
    by (simp add: exec_def regex_def)
qed

lemma gateway_prefix_needs_https:
  "\<not> prefix ''https://'' s \<Longrightarrow> ms gateway_prefix (s, c) = []"
  by (simp add: gateway_prefix_def)


lemma lit_fails_inside:
  assumes "a \<notin> set X" "q = [] \<or> hd q = c" "a \<noteq> c"
  shows "concat (map (ms (Lit (a # l))) (map (\<lambda>s'. (s', cs)) (plus_not c (X @ q)))) = []"
proof -
  have "\<not> prefix (a # l) t" if "t \<in> set (plus_not c (X @ q))" for t
  proof -
    from assms(2) have "plus_not c q = []" by (rule plus_not_stop)
    with plus_not_append_cases [OF that] obtain Y where Y: "suffix Y X" "t = Y @ q" by auto
    show ?thesis
    proof (cases Y)
      case Nil
      with Y assms(2,3) show ?thesis by (cases q) auto
    next
      case (Cons y Y')
      with Y(1) have "y \<in> set X" by (auto simp: suffix_def)
      with assms(1) Cons Y(2) show ?thesis by auto
    qed
  qed
  then show ?thesis by (auto simp: o_def)
qed

lemma take_minus_suffix: "take (length (a @ q) - length q) (a @ q) = a"
  by simp

lemma dweb_alt: "dweb = Seq (Lit ''https://'') (Seq (Grp 1 (PlusNot CHR ''?'')) dweb_tail)"
  by (simp add: dweb_def dweb_tail_def)

lemma ms_gateway_prefix_dweb:
  assumes "CHR ''/'' \<notin> set X"
  shows "ms gateway_prefix (''https://'' @ X @ ''.ipfs.dweb.link/'', c) = []"
proof -
  have "\<not> prefix ''/ipfs/'' t"
    if "t \<in> set (plus_not CHR ''?'' (X @ ''.ipfs.dweb.link/''))" for t
    using plus_not_append_cases [OF that]
  proof
    assume "t \<in> set (plus_not CHR ''?'' ''.ipfs.dweb.link/'')"
    then show ?thesis by auto
  next
    assume "\<exists>Y. suffix Y X \<and> t = Y @ ''.ipfs.dweb.link/''"
    then obtain Y where Y: "suffix Y X" "t = Y @ ''.ipfs.dweb.link/''" by auto
    show ?thesis
    proof (cases Y)
      case Nil
      with Y show ?thesis by simp
    next
      case (Cons y Y')
      with Y(1) have "y \<in> set X" by (auto simp: suffix_def)
      with assms Cons Y(2) show ?thesis by auto
    qed
  qed
  then show ?thesis
    by (auto simp: gateway_prefix_def)
qed

lemma concat_map_skip:
  "(\<And>x. x \<in> set A \<Longrightarrow> f x = []) \<Longrightarrow> concat (map f (A @ B)) = concat (map f B)"
  by (induction A) auto

lemma exec_dweb:
  assumes "X \<noteq> []" "CHR ''?'' \<notin> set X"
  shows "exec dweb (''https://'' @ X @ ''.ipfs.dweb.link/'') =
           Some [Some (''https://'' @ X @ ''.ipfs.dweb.link/''), Some X]"
proof -
  define T where "T = ''.ipfs.dweb.link/''"
  define g :: "string \<Rightarrow> string \<times> caps"
    where "g = (\<lambda>s'. (s', [1 \<mapsto> take (length (X @ T) - length s') (X @ T)]))"
  from assms plus_not_through [of "CHR ''?''" X T]
  obtain rest where r: "plus_not CHR ''?'' (X @ T) = plus_not CHR ''?'' T @ T # rest" by auto
  have grp: "ms (Grp 1 (PlusNot CHR ''?'')) (X @ T, Map.empty) =
      map g (plus_not CHR ''?'' T) @ g T # map g rest"
    by (simp add: r g_def)
  have fail: "ms dweb_tail (g t) = []" if "t \<in> set (plus_not CHR ''?'' T)" for t
    using that by (auto simp: g_def T_def dweb_tail_def)
  have gT: "g T = (T, [1 \<mapsto> X])"
    by (simp add: g_def)
  have hit: "ms dweb_tail (T, c) = [([], c)]" for c
    by (simp add: T_def dweb_tail_def line_terminator_def)
  have "ms (Seq (Grp 1 (PlusNot CHR ''?'')) dweb_tail) (X @ T, Map.empty) =
      concat (map (ms dweb_tail) (map g (plus_not CHR ''?'' T) @ g T # map g rest))"
    by (subst ms.simps(4)) (simp only: grp)
  also have "\<dots> = concat (map (ms dweb_tail) (g T # map g rest))"
    by (rule concat_map_skip) (auto simp: fail)
  also have "\<dots> = ([], [1 \<mapsto> X]) # concat (map (ms dweb_tail) (map g rest))"
    by (simp add: gT hit)
  finally have "ms dweb (''https://'' @ X @ T, Map.empty) =
      ([], [1 \<mapsto> X]) # concat (map (ms dweb_tail) (map g rest))"
    by (simp add: dweb_alt)
  then have "exec_from dweb (''https://'' @ X @ T) =
      Some [1 \<mapsto> X, 0 \<mapsto> ''https://'' @ X @ T]"
    by simp
  then show ?thesis
    by (simp add: exec_def dweb_def T_def)
qed


lemma replace_first_none:
  "CHR ''/'' \<notin> set X \<Longrightarrow> replace_first ''ipfs://'' rep X = X"
  using replace_first_skip [of X "[]" rep] by simp

lemma replace_first_dweb:
  assumes "CHR ''/'' \<notin> set X"
  shows "replace_first ''ipfs://'' [] (''https://'' @ X @ ''.ipfs.dweb.link/'') =
           ''https://'' @ X @ ''.ipfs.dweb.link/''"
proof -
  have "replace_first ''ipfs://'' [] (X @ ''.ipfs.dweb.link/'') =
          X @ replace_first ''ipfs://'' [] ''.ipfs.dweb.link/''"
    using assms by (intro replace_first_skip) simp_all
  then show ?thesis by simp
qed

lemma extractCID_plain:
  assumes "u \<noteq> []" "exec regex (replace_first ''ipfs://'' [] u) = Some [m, g, Some c]"
      and "\<not> suffix ''ipfs.dweb.link/'' c"
  shows "extractCID (Some u) = Inr (Str c)"
  using assms by (simp add: extractCID_def lodash_nth_def)

lemma extractCID_subdomain:
  assumes "u \<noteq> []" "exec regex (replace_first ''ipfs://'' [] u) = Some [m, g, Some c]"
      and "suffix ''ipfs.dweb.link/'' c" "exec dweb c = Some [m', Some d]"
  shows "extractCID (Some u) = Inr (Str d)"
  using assms by (simp add: extractCID_def lodash_nth_def of_undef_def)

subsection \<open>Gateway URLs with any host and query\<close>

lemma not_prefix_across:
  assumes "a \<in> set p" "a \<notin> set X" "c \<notin> set p" "q = [] \<or> hd q = c"
  shows "\<not> prefix p (X @ q)"
proof
  assume "prefix p (X @ q)"
  then consider "prefix p X" | us where "p = X @ us" "prefix us q"
    by (auto simp: prefix_append)
  then show False
  proof cases
    case 1
    then have "set p \<subseteq> set X" by (auto simp: prefix_def)
    with assms(1,2) show False by auto
  next
    case 2
    show False
    proof (cases us)
      case Nil
      with 2 assms(1,2) show False by simp
    next
      case (Cons u us')
      with 2(2) obtain q' where "q = u # q'" by (auto simp: prefix_def)
      with assms(4) have "u = c" by auto
      with 2(1) Cons assms(3) show False by auto
    qed
  qed
qed

lemma replace_first_before_query:
  assumes "CHR ''/'' \<notin> set X" "q = [] \<or> hd q = CHR ''?''"
  shows "replace_first ''ipfs://'' rep (X @ q) = X @ replace_first ''ipfs://'' rep q"
  using assms(1)
proof (induction X)
  case Nil
  then show ?case by simp
next
  case (Cons x X)
  have "\<not> prefix ''ipfs://'' ((x # X) @ q)"
    by (rule not_prefix_across [where a = "CHR ''/''" and c = "CHR ''?''"])
       (use Cons.prems assms(2) in auto)
  with Cons show ?case by auto
qed

lemma replace_first_query:
  assumes "q = [] \<or> hd q = CHR ''?''"
  shows "replace_first ''ipfs://'' [] q = [] \<or> hd (replace_first ''ipfs://'' [] q) = CHR ''?''"
  using assms by (cases q) auto

lemma no_scheme_in_host:
  assumes "CHR ''/'' \<notin> set Y"
  shows "\<not> prefix ''ipfs://'' (Y @ ''/ipfs/'' @ Z)"
proof
  assume "prefix ''ipfs://'' (Y @ ''/ipfs/'' @ Z)"
  then consider "prefix ''ipfs://'' Y" | us where "''ipfs://'' = Y @ us" "prefix us (''/ipfs/'' @ Z)"
    by (auto simp: prefix_append)
  then show False
  proof cases
    case 1
    then have "set ''ipfs://'' \<subseteq> set Y" by (auto simp: prefix_def)
    with assms show False by auto
  next
    case 2
    with assms show False
      by (auto simp: Cons_eq_append_conv)
  qed
qed

lemma replace_first_host:
  assumes "CHR ''/'' \<notin> set h"
  shows "replace_first ''ipfs://'' rep (h @ ''/ipfs/'' @ Z) =
           h @ replace_first ''ipfs://'' rep (''/ipfs/'' @ Z)"
  using assms
proof (induction h)
  case Nil
  then show ?case by simp
next
  case (Cons x h)
  have "\<not> prefix ''ipfs://'' ((x # h) @ ''/ipfs/'' @ Z)"
    by (rule no_scheme_in_host) (use Cons.prems in auto)
  with Cons show ?case by auto
qed

lemma replace_first_gateway:
  assumes "CHR ''/'' \<notin> set h" "CHR ''/'' \<notin> set X" "q = [] \<or> hd q = CHR ''?''"
  shows "replace_first ''ipfs://'' [] (''https://'' @ h @ ''/ipfs/'' @ X @ q) =
           ''https://'' @ h @ ''/ipfs/'' @ X @ replace_first ''ipfs://'' [] q"
proof -
  have 1: "replace_first ''ipfs://'' [] (X @ q) = X @ replace_first ''ipfs://'' [] q"
    using assms(2,3) by (rule replace_first_before_query)
  have 2: "replace_first ''ipfs://'' [] (''/ipfs/'' @ X @ q) =
      ''/ipfs/'' @ replace_first ''ipfs://'' [] (X @ q)"
    by simp
  have 3: "replace_first ''ipfs://'' [] (h @ ''/ipfs/'' @ X @ q) =
      h @ replace_first ''ipfs://'' [] (''/ipfs/'' @ X @ q)"
    using assms(1) by (rule replace_first_host)
  have "replace_first ''ipfs://'' [] (''https://'' @ h @ ''/ipfs/'' @ X @ q) =
      ''https://'' @ replace_first ''ipfs://'' [] (h @ ''/ipfs/'' @ X @ q)"
    by simp
  then show ?thesis by (simp only: 1 2 3)
qed

lemma lit_ipfs_fails_in_cid:
  assumes "CHR ''/'' \<notin> set X" "q = [] \<or> hd q = CHR ''?''"
  shows "concat (map (ms (Lit ''/ipfs/''))
           (map (\<lambda>s'. (s', c)) (plus_not CHR ''?'' (''/ipfs/'' @ X @ q)))) = []"
proof -
  have 1: "\<not> prefix ''/ipfs/'' (X @ q)"
    by (rule not_prefix_across [where a = "CHR ''/''" and c = "CHR ''?''"]) (use assms in auto)
  have 2: "\<not> prefix ''ipfs/'' (X @ q)"
    by (rule not_prefix_across [where a = "CHR ''/''" and c = "CHR ''?''"]) (use assms in auto)
  have 3: "concat (map (ms (Lit ''/ipfs/'')) (map (\<lambda>s'. (s', c)) (plus_not CHR ''?'' (X @ q)))) = []"
    by (rule lit_fails_inside) (use assms in auto)
  show ?thesis
    using 1 2 3 by simp
qed

lemma lit_ipfs_after_host:
  assumes "CHR ''?'' \<notin> set h" "CHR ''/'' \<notin> set h"
      and "CHR ''/'' \<notin> set X" "q = [] \<or> hd q = CHR ''?''"
  shows "concat (map (ms (Lit ''/ipfs/''))
           (map (\<lambda>s'. (s', c)) (plus_not CHR ''?'' (h @ ''/ipfs/'' @ X @ q)))) =
         (if h = [] then [] else [(X @ q, c)])"
  using assms(1,2)
proof (induction h)
  case Nil
  show ?case using lit_ipfs_fails_in_cid [OF assms(3,4)] by simp
next
  case (Cons a h)
  then have IH: "concat (map (ms (Lit ''/ipfs/''))
           (map (\<lambda>s'. (s', c)) (plus_not CHR ''?'' (h @ ''/ipfs/'' @ X @ q)))) =
         (if h = [] then [] else [(X @ q, c)])"
    by simp
  have here: "ms (Lit ''/ipfs/'') (h @ ''/ipfs/'' @ X @ q, c) = (if h = [] then [(X @ q, c)] else [])"
  proof (cases h)
    case Nil
    then show ?thesis by simp
  next
    case (Cons b h')
    with Cons.prems show ?thesis by auto
  qed
  have "plus_not CHR ''?'' ((a # h) @ ''/ipfs/'' @ X @ q) =
      plus_not CHR ''?'' (h @ ''/ipfs/'' @ X @ q) @ [h @ ''/ipfs/'' @ X @ q]"
    using Cons.prems by auto
  then have "concat (map (ms (Lit ''/ipfs/''))
           (map (\<lambda>s'. (s', c)) (plus_not CHR ''?'' ((a # h) @ ''/ipfs/'' @ X @ q)))) =
      (if h = [] then [] else [(X @ q, c)]) @ (if h = [] then [(X @ q, c)] else [])"
    by (simp only: map_append concat_append list.map concat.simps append_Nil2 IH here)
  then show ?case by simp
qed

lemma ms_gateway_prefix_host:
  assumes "h \<noteq> []" "CHR ''?'' \<notin> set h" "CHR ''/'' \<notin> set h"
      and "CHR ''/'' \<notin> set X" "q = [] \<or> hd q = CHR ''?''"
  shows "ms gateway_prefix (''https://'' @ h @ ''/ipfs/'' @ X @ q, c) =
           [(X @ q, c(1 \<mapsto> ''https://'' @ h @ ''/ipfs/''))]"
proof -
  define s where "s = ''https://'' @ h @ ''/ipfs/'' @ X @ q"
  have inner: "ms (Seq (PlusNot CHR ''?'') (Lit ''/ipfs/'')) (h @ ''/ipfs/'' @ X @ q, c) = [(X @ q, c)]"
    using lit_ipfs_after_host [OF assms(2-5), of c] assms(1) by simp
  have "ms (Seq (Lit ''https://'') (Seq (PlusNot CHR ''?'') (Lit ''/ipfs/''))) (s, c) = [(X @ q, c)]"
    unfolding s_def using inner by simp
  then have "ms gateway_prefix (s, c) = [(X @ q, c(1 \<mapsto> take (length s - length (X @ q)) s))]"
    by (simp add: gateway_prefix_def)
  moreover have "s = (''https://'' @ h @ ''/ipfs/'') @ (X @ q)"
    by (simp add: s_def)
  then have "take (length s - length (X @ q)) s = ''https://'' @ h @ ''/ipfs/''"
    by (simp only: take_minus_suffix)
  ultimately show ?thesis by (simp add: s_def)
qed

lemma exec_regex_gateway:
  assumes "h \<noteq> []" "CHR ''?'' \<notin> set h" "CHR ''/'' \<notin> set h"
      and "X \<noteq> []" "CHR ''?'' \<notin> set X" "CHR ''/'' \<notin> set X"
      and "q = [] \<or> hd q = CHR ''?''"
  shows "exec regex (''https://'' @ h @ ''/ipfs/'' @ X @ q) =
           Some [Some (''https://'' @ h @ ''/ipfs/'' @ X), Some (''https://'' @ h @ ''/ipfs/''), Some X]"
proof -
  define pre where "pre = ''https://'' @ h @ ''/ipfs/''"
  define s where "s = pre @ X @ q"
  have s_alt: "s = ''https://'' @ h @ ''/ipfs/'' @ X @ q"
    by (simp add: s_def pre_def)
  from assms(4,5,7) plus_not_greedy [of "CHR ''?''" X q]
  obtain t where t: "plus_not CHR ''?'' (X @ q) = q # t" by auto
  have g: "ms gateway_prefix (s, Map.empty) = [(X @ q, [1 \<mapsto> pre])]"
    unfolding s_alt pre_def using assms(1-3,6,7) by (rule ms_gateway_prefix_host)
  have len: "length (X @ q) < length s"
    by (simp add: s_def pre_def)
  have "\<exists>rest. ms regex (s, Map.empty) = (q, [1 \<mapsto> pre, 2 \<mapsto> X]) # rest"
    using len by (simp add: regex_alt g t)
  then obtain rest where m: "ms regex (s, Map.empty) = (q, [1 \<mapsto> pre, 2 \<mapsto> X]) # rest" ..
  obtain y ys where y: "s = y # ys" by (cases s) (auto simp: s_def pre_def)
  have "exec_from regex s = Some [1 \<mapsto> pre, 2 \<mapsto> X, 0 \<mapsto> take (length s - length q) s]"
    using m unfolding y by simp
  moreover have "s = (pre @ X) @ q"
    by (simp add: s_def)
  then have "take (length s - length q) s = pre @ X"
    by (simp only: take_minus_suffix)
  ultimately have "exec regex s = Some [Some (pre @ X), Some pre, Some X]"
    by (simp add: exec_def regex_def)
  then show ?thesis
    by (simp add: s_alt pre_def)
qed

subsection \<open>What the gateway prefix matches\<close>

lemma plus_not_consumes:
  "t \<in> set (plus_not c r) \<Longrightarrow> \<exists>a. a \<noteq> [] \<and> r = a @ t"
proof (induction r arbitrary: t)
  case Nil
  then show ?case by simp
next
  case (Cons x r)
  then have "t \<in> set (plus_not c r) \<or> t = r" by (auto split: if_splits)
  then show ?case
  proof
    assume "t \<in> set (plus_not c r)"
    from Cons.IH [OF this] obtain a where "a \<noteq> []" "r = a @ t" by blast
    then have "x # a \<noteq> [] \<and> x # r = (x # a) @ t" by simp
    then show ?thesis by blast
  next
    assume "t = r"
    then have "[x] \<noteq> [] \<and> x # r = [x] @ t" by simp
    then show ?thesis by blast
  qed
qed

lemma lit_result: "(s', c') \<in> set (ms (Lit l) (s, c)) \<Longrightarrow> s = l @ s'"
  by (auto simp: prefix_def split: if_splits)

lemma seq_result: "x \<in> set (ms (Seq a b) st) \<Longrightarrow> \<exists>m\<in>set (ms a st). x \<in> set (ms b m)"
  by auto

lemma grp_result: "(s', c') \<in> set (ms (Grp n a) (s, c)) \<Longrightarrow> \<exists>c1. (s', c1) \<in> set (ms a (s, c))"
  by auto

lemma plus_result: "(s2, c2) \<in> set (ms (PlusNot ch) (s1, c1)) \<Longrightarrow> s2 \<in> set (plus_not ch s1)"
  by auto

lemma gateway_prefix_shape:
  assumes "(s', c') \<in> set (ms gateway_prefix (s, c))"
  shows "\<exists>a. a \<noteq> [] \<and> s = ''https://'' @ a @ ''/ipfs/'' @ s'"
proof -
  from grp_result [OF assms [unfolded gateway_prefix_def]] obtain c1 where
    "(s', c1) \<in> set (ms (Seq (Lit ''https://'') (Seq (PlusNot CHR ''?'') (Lit ''/ipfs/''))) (s, c))"
    by blast
  from seq_result [OF this] obtain m1 where m1: "m1 \<in> set (ms (Lit ''https://'') (s, c))"
    and r1: "(s', c1) \<in> set (ms (Seq (PlusNot CHR ''?'') (Lit ''/ipfs/'')) m1)"
    by blast
  obtain s1 c1' where m1_eq: "m1 = (s1, c1')" by (cases m1)
  from lit_result [OF m1 [unfolded m1_eq]] have 1: "s = ''https://'' @ s1" .
  from seq_result [OF r1] obtain m2 where m2: "m2 \<in> set (ms (PlusNot CHR ''?'') m1)"
    and r2: "(s', c1) \<in> set (ms (Lit ''/ipfs/'') m2)"
    by blast
  obtain s2 c2 where m2_eq: "m2 = (s2, c2)" by (cases m2)
  from plus_result [OF m2 [unfolded m1_eq m2_eq]] have "s2 \<in> set (plus_not CHR ''?'' s1)" .
  from plus_not_consumes [OF this] obtain a where a: "a \<noteq> []" "s1 = a @ s2" by blast
  from lit_result [OF r2 [unfolded m2_eq]] have 3: "s2 = ''/ipfs/'' @ s'" .
  from 1 a(2) 3 have "s = ''https://'' @ a @ ''/ipfs/'' @ s'" by simp
  with a(1) show ?thesis by blast
qed

lemma exec_regex_as_is:
  assumes "s \<noteq> []" "CHR ''?'' \<notin> set s"
      and "\<not> (\<exists>a b. a \<noteq> [] \<and> b \<noteq> [] \<and> s = ''https://'' @ a @ ''/ipfs/'' @ b)"
  shows "exec regex s = Some [Some s, None, Some s]"
proof -
  from assms(1,2) plus_not_greedy [of "CHR ''?''" s "[]"]
  obtain t where t: "plus_not CHR ''?'' s = [] # t" by auto
  obtain x xs where s: "s = x # xs" using assms(1) by (cases s) auto
  have empty: "ms (Grp 2 (PlusNot CHR ''?'')) m = []"
    if "m \<in> set (ms gateway_prefix (s, Map.empty))" for m
  proof -
    obtain s' c' where m: "m = (s', c')" by (cases m)
    from gateway_prefix_shape [of s' c' s Map.empty] that m
    obtain a where "a \<noteq> []" "s = ''https://'' @ a @ ''/ipfs/'' @ s'" by blast
    with assms(3) have "s' = []" by blast
    with m show ?thesis by simp
  qed
  have "concat (map (ms (Grp 2 (PlusNot CHR ''?'')))
      (filter (\<lambda>(s', c'). length s' < length s) (ms gateway_prefix (s, Map.empty)) @
       [(s, Map.empty)])) =
      concat (map (ms (Grp 2 (PlusNot CHR ''?''))) [(s, Map.empty)])"
    by (rule concat_map_skip) (simp add: empty)
  then have "ms regex (s, Map.empty) =
      map (\<lambda>(s', c'). (s', c'(2 \<mapsto> take (length s - length s') s)))
          (map (\<lambda>s'. (s', Map.empty)) ([] # t))"
    by (simp add: regex_alt t)
  then have "exec_from regex s = Some (Map.empty(2 \<mapsto> s, 0 \<mapsto> s))"
    by (simp add: s)
  then show ?thesis
    by (simp add: exec_def regex_def)
qed

subsection \<open>When the first pattern matches\<close>

lemma regex_captures_cid:
  "(s', c) \<in> set (ms regex st) \<Longrightarrow> \<exists>g. c 2 = Some g"
  by (cases st) (auto simp: regex_alt)

lemma regex_matches_at:
  "x \<noteq> CHR ''?'' \<Longrightarrow> ms regex (x # xs, c) \<noteq> []"
  by (simp add: regex_alt)

lemma regex_skips_question_mark:
  "ms regex (CHR ''?'' # xs, c) = []"
  by (simp add: regex_alt gateway_prefix_def)

lemma exec_from_regex_total:
  "\<exists>ch\<in>set s. ch \<noteq> CHR ''?'' \<Longrightarrow> \<exists>c g. exec_from regex s = Some c \<and> c 2 = Some g"
proof (induction s)
  case Nil
  then show ?case by simp
next
  case (Cons x xs)
  show ?case
  proof (cases "ms regex (x # xs, Map.empty)")
    case Nil
    then have "x = CHR ''?''" using regex_matches_at by blast
    with Cons.prems have "\<exists>ch\<in>set xs. ch \<noteq> CHR ''?''" by simp
    with Cons.IH Nil show ?thesis by simp
  next
    case (Cons m rest)
    obtain s' c where m: "m = (s', c)" by (cases m)
    with Cons have "(s', c) \<in> set (ms regex (x # xs, Map.empty))" by simp
    then obtain g where "c 2 = Some g" using regex_captures_cid by blast
    with Cons m show ?thesis by simp
  qed
qed

lemma exec_regex_total:
  assumes "\<exists>ch\<in>set s. ch \<noteq> CHR ''?''"
  shows "\<exists>m g c. exec regex s = Some [m, g, Some c]"
proof -
  from exec_from_regex_total [OF assms]
  obtain c g where "exec_from regex s = Some c" "c 2 = Some g" by auto
  then show ?thesis by (simp add: exec_def regex_def numeral_2_eq_2)
qed

subsection \<open>The claims\<close>

text \<open>
  C10: \<open>extractCID(null)\<close> returns \<open>null\<close>, and \<open>extractCID("")\<close> returns \<open>null\<close> as
  well, without raising an error.
\<close>

theorem extractCID_null_empty:
  "extractCID None = Inr Null \<and> extractCID (Some []) = Inr Null"
  by (simp add: extractCID_def)

text \<open>
  C1: for a CID \<open>X\<close>, that is a non-empty string without \<open>?\<close> and without \<open>/\<close>,
  \<open>extractCID\<close> returns exactly \<open>X\<close> on each supported shape: \<open>ipfs://X\<close>; the
  gateway path form \<open>https://host/ipfs/X\<close> for every host (a non-empty string without
  \<open>?\<close> and \<open>/\<close>), followed by any query string (nothing, or \<open>?\<close> and any text) or
  none; the subdomain form \<open>https://X.ipfs.dweb.link/\<close>; and the bare \<open>X\<close>.
\<close>

theorem extractCID_supported_shapes:
  assumes "X \<noteq> []" "CHR ''?'' \<notin> set X" "CHR ''/'' \<notin> set X"
      and "h \<noteq> []" "CHR ''?'' \<notin> set h" "CHR ''/'' \<notin> set h"
      and "q = [] \<or> hd q = CHR ''?''"
  shows "extractCID (Some (''ipfs://'' @ X)) = Inr (Str X) \<and>
         extractCID (Some (''https://'' @ h @ ''/ipfs/'' @ X @ q)) = Inr (Str X) \<and>
         extractCID (Some (''https://'' @ X @ ''.ipfs.dweb.link/'')) = Inr (Str X) \<and>
         extractCID (Some X) = Inr (Str X)"
proof -
  have nohttps: "\<not> prefix ''https://'' X"
    by (rule not_prefix_if_absent [OF _ assms(3)]) simp
  have nodweb: "\<not> suffix ''ipfs.dweb.link/'' X"
    by (rule not_suffix_if_absent [OF _ assms(3)]) simp
  have bare: "exec regex X = Some [Some X, None, Some X]"
    using assms(1,2) nohttps by (intro exec_regex_no_gateway gateway_prefix_needs_https)
  have 1: "extractCID (Some (''ipfs://'' @ X)) = Inr (Str X)"
    by (rule extractCID_plain [OF _ _ nodweb]) (simp_all add: bare)
  have 2: "extractCID (Some (''https://'' @ h @ ''/ipfs/'' @ X @ q)) = Inr (Str X)"
  proof (rule extractCID_plain [OF _ _ nodweb])
    show "''https://'' @ h @ ''/ipfs/'' @ X @ q \<noteq> []" by simp
    show "exec regex (replace_first ''ipfs://'' [] (''https://'' @ h @ ''/ipfs/'' @ X @ q)) =
        Some [Some (''https://'' @ h @ ''/ipfs/'' @ X), Some (''https://'' @ h @ ''/ipfs/''), Some X]"
      unfolding replace_first_gateway [OF assms(6,3,7)]
      by (rule exec_regex_gateway [OF assms(4-6) assms(1-3) replace_first_query [OF assms(7)]])
  qed
  let ?s = "''https://'' @ X @ ''.ipfs.dweb.link/''"
  have 3: "extractCID (Some ?s) = Inr (Str X)"
  proof (rule extractCID_subdomain)
    show "?s \<noteq> []" by simp
    have "exec regex ?s = Some [Some ?s, None, Some ?s]"
      using assms by (intro exec_regex_no_gateway ms_gateway_prefix_dweb) auto
    then show "exec regex (replace_first ''ipfs://'' [] ?s) = Some [Some ?s, None, Some ?s]"
      unfolding replace_first_dweb [OF assms(3)] .
    show "suffix ''ipfs.dweb.link/'' ?s"
      by (rule suffixI [where zs = "''https://'' @ X @ ''.''"]) simp
    show "exec dweb ?s = Some [Some ?s, Some X]"
      using assms(1,2) by (rule exec_dweb)
  qed
  have 4: "extractCID (Some X) = Inr (Str X)"
    by (rule extractCID_plain [OF assms(1) _ nodweb]) (simp add: replace_first_none assms(3) bare)
  from 1 2 3 4 show ?thesis by simp
qed

theorem extractCID_supported_shapes_witness:
  "''QmHash'' \<noteq> [] \<and> CHR ''?'' \<notin> set ''QmHash'' \<and> CHR ''/'' \<notin> set ''QmHash'' \<and>
   ''gw'' \<noteq> [] \<and> CHR ''?'' \<notin> set ''gw'' \<and> CHR ''/'' \<notin> set ''gw'' \<and>
   hd ''?q=1'' = CHR ''?'' \<and>
   extractCID (Some ''ipfs://QmHash'') = Inr (Str ''QmHash'') \<and>
   extractCID (Some ''https://gw/ipfs/QmHash?q=1'') = Inr (Str ''QmHash'') \<and>
   extractCID (Some ''https://ipfs.io/ipfs/QmHash'') = Inr (Str ''QmHash'') \<and>
   extractCID (Some ''https://QmHash.ipfs.dweb.link/'') = Inr (Str ''QmHash'') \<and>
   extractCID (Some ''QmHash'') = Inr (Str ''QmHash'')"
  using extractCID_supported_shapes [of "''QmHash''" "''gw''" "''?q=1''"]
    extractCID_supported_shapes [of "''QmHash''" "''ipfs.io''" "[]"]
  by simp

text \<open>
  C7, as the specification states it, does not hold: on the input \<open>?\<close> the first
  pattern has no match, \<open>cid\<close> is \<open>undefined\<close> and \<open>cid.endsWith\<close> throws; on
  \<open>a?b\<close>, which has none of the recognised shapes, the result is \<open>a\<close> and not the
  input as it is; and on \<open>ipfs.dweb.link/\<close>, which is no subdomain URL, the second
  pattern has no match and the result is \<open>undefined\<close>.
\<close>

theorem extractCID_throws_counterexample:
  "extractCID (Some ''?'') = Inl TypeError \<and>
   extractCID (Some ''a?b'') = Inr (Str ''a'') \<and>
   extractCID (Some ''ipfs.dweb.link/'') = Inr Undefined"
  by code_simp

text \<open>
  C7, amended: for every non-empty input that, once the first \<open>ipfs://\<close> is removed,
  has a character other than \<open>?\<close>, \<open>extractCID\<close> returns normally; and if the input
  so cleaned has no \<open>?\<close>, does not end with \<open>ipfs.dweb.link/\<close> and is not a gateway
  URL (\<open>https://\<close>, a non-empty host part, \<open>/ipfs/\<close> and a non-empty rest), the
  result is the cleaned input as it is. That covers every other \<open>https://\<close> URL.
\<close>

theorem extractCID_returns:
  assumes "u \<noteq> []" and "\<exists>ch\<in>set (replace_first ''ipfs://'' [] u). ch \<noteq> CHR ''?''"
  shows "(\<exists>v. extractCID (Some u) = Inr v) \<and>
         (CHR ''?'' \<notin> set (replace_first ''ipfs://'' [] u) \<and>
          \<not> suffix ''ipfs.dweb.link/'' (replace_first ''ipfs://'' [] u) \<and>
          \<not> (\<exists>a b. a \<noteq> [] \<and> b \<noteq> [] \<and>
               replace_first ''ipfs://'' [] u = ''https://'' @ a @ ''/ipfs/'' @ b) \<longrightarrow>
          extractCID (Some u) = Inr (Str (replace_first ''ipfs://'' [] u)))"
proof -
  let ?s = "replace_first ''ipfs://'' [] u"
  from exec_regex_total [OF assms(2)]
  obtain m g c where e: "exec regex ?s = Some [m, g, Some c]" by blast
  have 1: "\<exists>v. extractCID (Some u) = Inr v"
    using assms(1) e by (simp add: extractCID_def lodash_nth_def)
  have 2: "extractCID (Some u) = Inr (Str ?s)"
    if "CHR ''?'' \<notin> set ?s" "\<not> suffix ''ipfs.dweb.link/'' ?s"
       "\<not> (\<exists>a b. a \<noteq> [] \<and> b \<noteq> [] \<and> ?s = ''https://'' @ a @ ''/ipfs/'' @ b)"
  proof (rule extractCID_plain [OF assms(1) _ that(2)])
    from assms(2) have "?s \<noteq> []" by auto
    then show "exec regex ?s = Some [Some ?s, None, Some ?s]"
      using that(1,3) by (rule exec_regex_as_is)
  qed
  from 1 2 show ?thesis by blast
qed

theorem extractCID_returns_witness:
  "''https://example.com/foo'' \<noteq> [] \<and>
   (\<exists>ch\<in>set (replace_first ''ipfs://'' [] ''https://example.com/foo''). ch \<noteq> CHR ''?'') \<and>
   CHR ''?'' \<notin> set (replace_first ''ipfs://'' [] ''https://example.com/foo'') \<and>
   \<not> suffix ''ipfs.dweb.link/'' (replace_first ''ipfs://'' [] ''https://example.com/foo'') \<and>
   \<not> (\<exists>a b. a \<noteq> [] \<and> b \<noteq> [] \<and>
        replace_first ''ipfs://'' [] ''https://example.com/foo'' = ''https://'' @ a @ ''/ipfs/'' @ b) \<and>
   (\<exists>v. extractCID (Some ''https://example.com/foo'') = Inr v) \<and>
   extractCID (Some ''https://example.com/foo'') = Inr (Str ''https://example.com/foo'') \<and>
   extractCID (Some ''ipfs://not a cid'') = Inr (Str ''not a cid'')"
proof -
  have r: "replace_first ''ipfs://'' [] ''https://example.com/foo'' = ''https://example.com/foo''"
    by simp
  have n: "\<not> (\<exists>a b. a \<noteq> [] \<and> b \<noteq> [] \<and>
        ''https://example.com/foo'' = ''https://'' @ a @ ''/ipfs/'' @ b)"
  proof
    assume "\<exists>a b. a \<noteq> [] \<and> b \<noteq> [] \<and> ''https://example.com/foo'' = ''https://'' @ a @ ''/ipfs/'' @ b"
    then obtain a b where "''https://example.com/foo'' = ''https://'' @ a @ ''/ipfs/'' @ b" by blast
    then have "set ''https://example.com/foo'' = set (''https://'' @ a @ ''/ipfs/'' @ b)" by simp
    then have "CHR ''i'' \<in> set ''https://example.com/foo''" by simp
    then show False by simp
  qed
  have f: "\<not> suffix ''ipfs.dweb.link/'' ''https://example.com/foo''"
    by (simp add: suffix_to_prefix)
  have q: "CHR ''?'' \<notin> set ''https://example.com/foo''" by simp
  have e: "\<exists>ch\<in>set ''https://example.com/foo''. ch \<noteq> CHR ''?''" by simp
  note t = extractCID_returns [of "''https://example.com/foo''", unfolded r]
  from t e have 1: "\<exists>v. extractCID (Some ''https://example.com/foo'') = Inr v" by simp
  from t e q f n have 2: "extractCID (Some ''https://example.com/foo'') = Inr (Str ''https://example.com/foo'')"
    by simp
  have 3: "extractCID (Some ''ipfs://not a cid'') = Inr (Str ''not a cid'')"
    using extractCID_returns [of "''ipfs://not a cid''"]
    by (auto simp: suffix_to_prefix dest: arg_cong [where f = set])
  from r n f q e 1 2 3 show ?thesis by simp
qed

section \<open>Properties of the gateway provider\<close>

subsection \<open>The race\<close>

lemma finite_unsettled: "finite (unsettled errors)"
  by (simp add: unsettled_def)

lemma unsettled_update:
  "unsettled (errors[i := Some e]) = unsettled errors - {i}"
  by (cases "i < length errors") (auto simp: unsettled_def nth_list_update split: if_splits)

lemma unsettled_replicate: "unsettled (replicate n None) = {..<n}"
  by (auto simp: unsettled_def)

lemma card_unsettled_update:
  "i \<in> unsettled errors \<Longrightarrow> card (unsettled (errors[i := Some e])) = card (unsettled errors) - 1"
  by (simp add: unsettled_update finite_unsettled)

lemma two_unsettled:
  "i \<in> unsettled errors \<Longrightarrow> k \<in> unsettled errors \<Longrightarrow> i \<noteq> k \<Longrightarrow> card (unsettled errors) - 1 \<noteq> 0"
proof -
  assume a: "i \<in> unsettled errors" "k \<in> unsettled errors" "i \<noteq> k"
  then have "{i, k} \<subseteq> unsettled errors" by simp
  then have "card {i, k} \<le> card (unsettled errors)"
    by (rule card_mono [OF finite_unsettled])
  with a(3) show ?thesis by simp
qed

lemma race_inv_init: "race_inv outs (replicate (length outs) None) (length outs)"
  by (simp add: race_inv_def unsettled_replicate)

lemma race_inv_step:
  assumes "race_inv outs errors remaining" "i < length outs" "errors ! i = None" "outs ! i = Inl e"
  shows "race_inv outs (errors[i := Some e]) (remaining - 1)"
proof -
  from assms have "i \<in> unsettled errors" by (simp add: unsettled_def race_inv_def)
  with assms show ?thesis
    by (auto simp: race_inv_def card_unsettled_update nth_list_update)
qed

lemma fulfilled_unsettled:
  "race_inv outs errors remaining \<Longrightarrow> k < length outs \<Longrightarrow> outs ! k = Inr v \<Longrightarrow> k \<in> unsettled errors"
  by (cases "errors ! k") (auto simp: race_inv_def unsettled_def)

lemma any_run_first_success:
  assumes "race_inv outs errors remaining"
      and "i < length outs" "outs ! i = Inr v"
      and "\<forall>j\<in>set pre. j < length outs \<longrightarrow> isl (outs ! j)"
  shows "any_run outs errors remaining (pre @ i # post) = Some (Inr v)"
  using assms
proof (induction pre arbitrary: errors remaining)
  case Nil
  from fulfilled_unsettled [OF Nil(1-3)] have "errors ! i = None" by (simp add: unsettled_def)
  with Nil show ?case by simp
next
  case (Cons j pre)
  show ?case
  proof (cases "j < length outs \<and> errors ! j = None")
    case False
    with Cons show ?thesis by auto
  next
    case True
    with Cons.prems(4) obtain e where e: "outs ! j = Inl e" by (cases "outs ! j") auto
    have ju: "j \<in> unsettled errors" using True Cons.prems(1) by (simp add: unsettled_def race_inv_def)
    have iu: "i \<in> unsettled errors" by (rule fulfilled_unsettled [OF Cons.prems(1-3)])
    have "i \<noteq> j" using e Cons.prems(3) by auto
    with ju iu have "card (unsettled errors) - 1 \<noteq> 0" by (intro two_unsettled [of j _ i]) auto
    then have more: "remaining - 1 \<noteq> 0" using Cons.prems(1) by (simp add: race_inv_def)
    have "race_inv outs (errors[j := Some e]) (remaining - 1)"
      using Cons.prems(1) True e by (intro race_inv_step) auto
    then have "any_run outs (errors[j := Some e]) (remaining - 1) (pre @ i # post) = Some (Inr v)"
      using Cons.prems by (intro Cons.IH) auto
    with True e more show ?thesis by simp
  qed
qed

lemma any_run_settles:
  assumes "race_inv outs errors remaining" "unsettled errors \<subseteq> set sched" "remaining \<noteq> 0"
  shows "any_run outs errors remaining sched \<noteq> None"
  using assms
proof (induction sched arbitrary: errors remaining)
  case Nil
  then show ?case by (simp add: race_inv_def)
next
  case (Cons i sched)
  show ?case
  proof (cases "i < length outs \<and> errors ! i = None")
    case False
    then have "i \<notin> unsettled errors" using Cons.prems(1) by (auto simp: unsettled_def race_inv_def)
    with Cons.prems have "unsettled errors \<subseteq> set sched" by auto
    with Cons False show ?thesis by auto
  next
    case True
    show ?thesis
    proof (cases "outs ! i")
      case (Inr v)
      with True show ?thesis by simp
    next
      case (Inl e)
      show ?thesis
      proof (cases "remaining - 1 = 0")
        case True
        with \<open>i < length outs \<and> errors ! i = None\<close> Inl show ?thesis by simp
      next
        case False
        have "race_inv outs (errors[i := Some e]) (remaining - 1)"
          using Cons.prems(1) True Inl by (intro race_inv_step) auto
        moreover have "unsettled (errors[i := Some e]) \<subseteq> set sched"
          using Cons.prems(2) by (auto simp: unsettled_update)
        ultimately have "any_run outs (errors[i := Some e]) (remaining - 1) sched \<noteq> None"
          using False by (intro Cons.IH)
        with True Inl False show ?thesis by simp
      qed
    qed
  qed
qed

lemma any_run_fulfilled_from:
  "any_run outs errors remaining sched = Some (Inr v) \<Longrightarrow> \<exists>i<length outs. outs ! i = Inr v"
  by (induction sched arbitrary: errors remaining) (auto split: if_splits sum.splits)

lemma any_run_rejected_all:
  assumes "race_inv outs errors remaining"
      and "any_run outs errors remaining sched = Some (Inl err)"
  shows "(\<forall>k<length outs. isl (outs ! k)) \<and>
         err = AggregateError (map (\<lambda>out. case out of Inl e \<Rightarrow> Some e | Inr v \<Rightarrow> None) outs)"
  using assms
proof (induction sched arbitrary: errors remaining)
  case Nil
  then show ?case by simp
next
  case (Cons i sched)
  show ?case
  proof (cases "i < length outs \<and> errors ! i = None")
    case False
    with Cons show ?thesis by auto
  next
    case True
    show ?thesis
    proof (cases "outs ! i")
      case (Inr v)
      with True Cons.prems show ?thesis by simp
    next
      case (Inl e)
      have step: "race_inv outs (errors[i := Some e]) (remaining - 1)"
        using Cons.prems(1) True Inl by (intro race_inv_step) auto
      show ?thesis
      proof (cases "remaining - 1 = 0")
        case False
        with True Inl Cons.prems(2)
        have "any_run outs (errors[i := Some e]) (remaining - 1) sched = Some (Inl err)" by simp
        with step show ?thesis by (rule Cons.IH)
      next
        case True
        with \<open>i < length outs \<and> errors ! i = None\<close> Inl Cons.prems(2)
        have err: "err = AggregateError (errors[i := Some e])" by simp
        from step True have none: "unsettled (errors[i := Some e]) = {}"
          by (simp add: race_inv_def finite_unsettled)
        have len: "length (errors[i := Some e]) = length outs"
          using step by (simp add: race_inv_def)
        have each: "\<exists>e'. (errors[i := Some e]) ! k = Some e' \<and> outs ! k = Inl e'" if "k < length outs" for k
        proof -
          from none that len have "(errors[i := Some e]) ! k \<noteq> None"
            by (auto simp: unsettled_def)
          then obtain e' where "(errors[i := Some e]) ! k = Some e'" by auto
          with step that show ?thesis by (auto simp: race_inv_def)
        qed
        have "errors[i := Some e] = map (\<lambda>out. case out of Inl e \<Rightarrow> Some e | Inr v \<Rightarrow> None) outs"
        proof (rule nth_equalityI)
          show "length (errors[i := Some e]) =
              length (map (\<lambda>out. case out of Inl e \<Rightarrow> Some e | Inr v \<Rightarrow> None) outs)"
            using len by simp
        next
          fix k
          assume "k < length (errors[i := Some e])"
          with len have k: "k < length outs" by simp
          from each [OF k] obtain e' where "(errors[i := Some e]) ! k = Some e'" "outs ! k = Inl e'"
            by blast
          with k show "(errors[i := Some e]) ! k =
              map (\<lambda>out. case out of Inl e \<Rightarrow> Some e | Inr v \<Rightarrow> None) outs ! k"
            by simp
        qed
        moreover have "\<forall>k<length outs. isl (outs ! k)"
        proof (intro allI impI)
          fix k
          assume "k < length outs"
          from each [OF this] obtain e' where "outs ! k = Inl e'" by blast
          then show "isl (outs ! k)" by simp
        qed
        ultimately show ?thesis using err by simp
      qed
    qed
  qed
qed


lemma promise_any_first_success:
  assumes "i < length outs" "outs ! i = Inr v"
      and "\<forall>j\<in>set pre. j < length outs \<longrightarrow> isl (outs ! j)"
  shows "promise_any outs (pre @ i # post) = Some (Inr v)"
proof -
  from assms(1) have "outs \<noteq> []" by auto
  then show ?thesis
    using any_run_first_success [OF race_inv_init assms] by (simp add: promise_any_def)
qed

lemma promise_any_settles:
  assumes "{..<length outs} \<subseteq> set sched"
  shows "promise_any outs sched \<noteq> None"
proof (cases "outs = []")
  case True
  then show ?thesis by (simp add: promise_any_def)
next
  case False
  then have "any_run outs (replicate (length outs) None) (length outs) sched \<noteq> None"
    using assms by (intro any_run_settles race_inv_init) (simp_all add: unsettled_replicate)
  with False show ?thesis by (simp add: promise_any_def)
qed

lemma promise_any_fulfilled_from:
  "promise_any outs sched = Some (Inr v) \<Longrightarrow> Inr v \<in> set outs"
proof -
  assume "promise_any outs sched = Some (Inr v)"
  then have "any_run outs (replicate (length outs) None) (length outs) sched = Some (Inr v)"
    by (simp add: promise_any_def split: if_splits)
  from any_run_fulfilled_from [OF this]
  obtain i where i: "i < length outs" "outs ! i = Inr v" by auto
  from nth_mem [OF i(1)] i(2) show ?thesis by simp
qed

lemma promise_any_rejected_all:
  assumes "promise_any outs sched = Some (Inl err)"
  shows "(\<forall>out\<in>set outs. isl out) \<and>
         err = AggregateError (map (\<lambda>out. case out of Inl e \<Rightarrow> Some e | Inr v \<Rightarrow> None) outs)"
proof (cases "outs = []")
  case True
  with assms show ?thesis by (simp add: promise_any_def)
next
  case False
  with assms have "any_run outs (replicate (length outs) None) (length outs) sched = Some (Inl err)"
    by (simp add: promise_any_def)
  from any_run_rejected_all [OF race_inv_init this] show ?thesis
    by (auto simp: in_set_conv_nth)
qed

lemma promise_any_fails_iff:
  assumes "{..<length outs} \<subseteq> set sched"
  shows "(\<exists>err. promise_any outs sched = Some (Inl err)) \<longleftrightarrow> (\<forall>out\<in>set outs. isl out)"
proof
  assume "\<exists>err. promise_any outs sched = Some (Inl err)"
  then show "\<forall>out\<in>set outs. isl out" using promise_any_rejected_all by blast
next
  assume all: "\<forall>out\<in>set outs. isl out"
  from promise_any_settles [OF assms] obtain x where x: "promise_any outs sched = Some x" by auto
  show "\<exists>err. promise_any outs sched = Some (Inl err)"
  proof (cases x)
    case (Inl err)
    with x show ?thesis by simp
  next
    case (Inr v)
    with x have "Inr v \<in> set outs" by (simp add: promise_any_fulfilled_from)
    with all show ?thesis by auto
  qed
qed

subsection \<open>The claim\<close>

text \<open>
  C2: \<open>_Gateway.get\<close> races one request per configured gateway. Whatever the order
  in which the requests complete, the result is the data of the first request that
  completes successfully: if the schedule reaches a successful request \<open>i\<close> after
  failed ones only, the result is its data. When every request completes, the call
  settles, and it fails if and only if every request fails; a failure is always the
  aggregate of the reasons of all requests. In particular over a failing and a
  succeeding source the result is that of the succeeding one in both orders.
\<close>

theorem Gateway_get_fan_out:
  assumes "outs = map (\<lambda>gateway. http (gateway @ CID) None) (gatewaysUrls opts)"
  shows "(sched = pre @ i # post \<and> i < length outs \<and> outs ! i = Inr resp \<and>
          (\<forall>j\<in>set pre. j < length outs \<longrightarrow> isl (outs ! j)) \<longrightarrow>
            Gateway_get opts http sched CID = Some (Inr (data resp))) \<and>
         ({..<length outs} \<subseteq> set sched \<longrightarrow>
            Gateway_get opts http sched CID \<noteq> None \<and>
            ((\<exists>err. Gateway_get opts http sched CID = Some (Inl err)) \<longleftrightarrow>
             (\<forall>out\<in>set outs. isl out))) \<and>
         (\<forall>err. Gateway_get opts http sched CID = Some (Inl err) \<longrightarrow>
            err = AggregateError (map (\<lambda>out. case out of Inl e \<Rightarrow> Some e | Inr v \<Rightarrow> None) outs))"
proof -
  have g: "Gateway_get opts http sched CID =
      (case promise_any outs sched of
         None \<Rightarrow> None
       | Some (Inl e) \<Rightarrow> Some (Inl e)
       | Some (Inr resp) \<Rightarrow> Some (Inr (data resp)))"
    by (simp add: Gateway_get_def assms)
  have 1: "Gateway_get opts http sched CID = Some (Inr (data resp))"
    if "sched = pre @ i # post" "i < length outs" "outs ! i = Inr resp"
       "\<forall>j\<in>set pre. j < length outs \<longrightarrow> isl (outs ! j)"
  proof -
    have "promise_any outs sched = Some (Inr resp)"
      unfolding that(1) by (rule promise_any_first_success [OF that(2-4)])
    then show ?thesis by (simp add: g)
  qed
  have 2: "Gateway_get opts http sched CID \<noteq> None" if "{..<length outs} \<subseteq> set sched"
    using promise_any_settles [OF that] by (auto simp: g split: option.splits sum.splits)
  have 3: "(\<exists>err. Gateway_get opts http sched CID = Some (Inl err)) \<longleftrightarrow> (\<forall>out\<in>set outs. isl out)"
    if "{..<length outs} \<subseteq> set sched"
    using promise_any_fails_iff [OF that] by (auto simp: g split: option.splits sum.splits)
  have 4: "err = AggregateError (map (\<lambda>out. case out of Inl e \<Rightarrow> Some e | Inr v \<Rightarrow> None) outs)"
    if "Gateway_get opts http sched CID = Some (Inl err)" for err
  proof -
    from that have "promise_any outs sched = Some (Inl err)"
      by (auto simp: g split: option.splits sum.splits)
    then show ?thesis using promise_any_rejected_all by blast
  qed
  from 1 2 3 4 show ?thesis by blast
qed

theorem Gateway_get_fan_out_witness:
  "[Inl (Rejected ''down''), Inr \<lparr>data = Str ''A''\<rparr>] =
     map (\<lambda>gateway. fail_then_A (gateway @ ''Qm'') None) (gatewaysUrls two_gateways) \<and>
   [Inl (Rejected ''down''), Inl (Rejected ''down'')] =
     map (\<lambda>gateway. always_fail (gateway @ ''Qm'') None) (gatewaysUrls two_gateways) \<and>
   Gateway_get two_gateways fail_then_A [0, 1] ''Qm'' = Some (Inr (Str ''A'')) \<and>
   Gateway_get two_gateways fail_then_A [1, 0] ''Qm'' = Some (Inr (Str ''A'')) \<and>
   Gateway_get two_gateways always_fail [1, 0] ''Qm'' =
     Some (Inl (AggregateError [Some (Rejected ''down''), Some (Rejected ''down'')]))"
proof -
  let ?A = "\<lparr>data = Str ''A''\<rparr>"
  have o1: "[Inl (Rejected ''down''), Inr ?A] =
      map (\<lambda>gateway. fail_then_A (gateway @ ''Qm'') None) (gatewaysUrls two_gateways)"
    by (simp add: two_gateways_def fail_then_A_def)
  have o2: "[Inl (Rejected ''down''), Inl (Rejected ''down'')] =
      map (\<lambda>gateway. always_fail (gateway @ ''Qm'') None) (gatewaysUrls two_gateways)"
    by (simp add: two_gateways_def always_fail_def)
  have a: "Gateway_get two_gateways fail_then_A [0, 1] ''Qm'' = Some (Inr (Str ''A''))"
    using Gateway_get_fan_out [where opts = two_gateways and http = fail_then_A
        and CID = "''Qm''" and outs = "[Inl (Rejected ''down''), Inr ?A]"
        and sched = "[0, 1]" and pre = "[0]" and i = 1 and post = "[]" and resp = ?A,
        OF o1, THEN conjunct1]
    by simp
  have b: "Gateway_get two_gateways fail_then_A [1, 0] ''Qm'' = Some (Inr (Str ''A''))"
    using Gateway_get_fan_out [where opts = two_gateways and http = fail_then_A
        and CID = "''Qm''" and outs = "[Inl (Rejected ''down''), Inr ?A]"
        and sched = "[1, 0]" and pre = "[]" and i = 1 and post = "[0]" and resp = ?A,
        OF o1, THEN conjunct1]
    by simp
  have complete: "{..<length [Inl (Rejected ''down''), Inl (Rejected ''down'') :: error + response]}
      \<subseteq> set [1, 0]"
    by auto
  note f = Gateway_get_fan_out [where opts = two_gateways and http = always_fail
      and CID = "''Qm''" and outs = "[Inl (Rejected ''down''), Inl (Rejected ''down'')]"
      and sched = "[1, 0]", OF o2, THEN conjunct2]
  from f complete obtain err where
    err: "Gateway_get two_gateways always_fail [1, 0] ''Qm'' = Some (Inl err)"
    by auto
  with f have "err = AggregateError [Some (Rejected ''down''), Some (Rejected ''down'')]"
    by simp
  with a b err o1 o2 show ?thesis by simp
qed

section \<open>Properties of the node provider\<close>

lemma findOne_split:
  "findOne c docs = Some p \<Longrightarrow>
   \<exists>xs ys. docs = xs @ p # ys \<and> (\<forall>d\<in>set xs. cid d \<noteq> c) \<and> cid p = c \<and>
           deleteOne c docs = xs @ ys"
proof (induction docs)
  case Nil
  then show ?case by (simp add: findOne_def)
next
  case (Cons d docs)
  show ?case
  proof (cases "cid d = c")
    case True
    with Cons.prems have "d = p" by (simp add: findOne_def)
    with True have "d # docs = [] @ p # docs \<and> (\<forall>d\<in>set []. cid d \<noteq> c) \<and> cid p = c \<and>
        deleteOne c (d # docs) = [] @ docs" by simp
    then show ?thesis by blast
  next
    case False
    with Cons.prems have "findOne c docs = Some p" by (simp add: findOne_def)
    from Cons.IH [OF this] obtain xs ys where
      "docs = xs @ p # ys" "\<forall>d\<in>set xs. cid d \<noteq> c" "cid p = c" "deleteOne c docs = xs @ ys"
      by blast
    with False have "d # docs = (d # xs) @ p # ys \<and> (\<forall>d\<in>set (d # xs). cid d \<noteq> c) \<and> cid p = c \<and>
        deleteOne c (d # docs) = (d # xs) @ ys" by simp
    then show ?thesis by blast
  qed
qed

text \<open>
  C3: when the ledger can be read, \<open>unpin\<close> fails with the error \<open>Content not
  pinned\<close> (not found) if there is no pin document for the CID, and with the error
  \<open>Unauthorized: only content owner can unpin\<close> if the document found belongs to
  another owner than the caller; otherwise, when the IPFS node removes the pin and the
  ledger accepts the deletion, it returns \<open>true\<close>, the node is as the removal left it,
  and the document found is deleted from the ledger.
\<close>

theorem unpin_outcomes:
  assumes "db_fault env FindOne = None"
  shows "(findOne c (ledger st) = None \<longrightarrow>
            unpin env c who st = (Inl (Error ''Content not pinned''), st)) \<and>
         (\<forall>p. findOne c (ledger st) = Some p \<and> owner p \<noteq> walletId who \<longrightarrow>
            unpin env c who st =
              (Inl (Error ''Unauthorized: only content owner can unpin''), st)) \<and>
         (\<forall>p b'. findOne c (ledger st) = Some p \<and> owner p = walletId who \<and>
                 pin_rm (client env) c (backing st) = (Inr (), b') \<and>
                 db_fault env DeleteOne = None \<longrightarrow>
            unpin env c who st =
              (Inr True, st\<lparr>backing := b', ledger := deleteOne c (ledger st)\<rparr>) \<and>
            (\<exists>xs ys. ledger st = xs @ p # ys \<and> (\<forall>d\<in>set xs. cid d \<noteq> c) \<and>
                     deleteOne c (ledger st) = xs @ ys))"
proof (intro conjI allI impI)
  assume "findOne c (ledger st) = None"
  with assms show "unpin env c who st = (Inl (Error ''Content not pinned''), st)"
    by (simp add: unpin_def)
next
  fix p
  assume "findOne c (ledger st) = Some p \<and> owner p \<noteq> walletId who"
  with assms show "unpin env c who st =
      (Inl (Error ''Unauthorized: only content owner can unpin''), st)"
    by (simp add: unpin_def)
next
  fix p b'
  assume a: "findOne c (ledger st) = Some p \<and> owner p = walletId who \<and>
      pin_rm (client env) c (backing st) = (Inr (), b') \<and> db_fault env DeleteOne = None"
  with assms show "unpin env c who st =
      (Inr True, st\<lparr>backing := b', ledger := deleteOne c (ledger st)\<rparr>)"
    by (simp add: unpin_def)
  from a findOne_split [of c "ledger st" p]
  show "\<exists>xs ys. ledger st = xs @ p # ys \<and> (\<forall>d\<in>set xs. cid d \<noteq> c) \<and>
      deleteOne c (ledger st) = xs @ ys"
    by blast
qed

theorem unpin_outcomes_witness:
  "db_fault env0 FindOne = None \<and>
   findOne ''Qmother'' (ledger st_hello) = None \<and>
   unpin env0 ''Qmother'' alice st_hello = (Inl (Error ''Content not pinned''), st_hello) \<and>
   unpin env0 ''Qmhello'' bob st_hello =
     (Inl (Error ''Unauthorized: only content owner can unpin''), st_hello) \<and>
   unpin env0 ''Qmhello'' alice st_hello = (Inr True, st0)"
proof -
  have f: "db_fault env0 FindOne = None" by (simp add: env0_def)
  note u = unpin_outcomes [OF f]
  have n: "findOne ''Qmother'' (ledger st_hello) = None"
    by (simp add: findOne_def st_hello_def)
  have h: "findOne ''Qmhello'' (ledger st_hello) =
      Some \<lparr>cid = ''Qmhello'', owner = ''alice'', timestamp = 0\<rparr>"
    by (simp add: findOne_def st_hello_def)
  have 1: "unpin env0 ''Qmother'' alice st_hello = (Inl (Error ''Content not pinned''), st_hello)"
    using u [of "''Qmother''" st_hello alice, THEN conjunct1] n by simp
  have 2: "unpin env0 ''Qmhello'' bob st_hello =
      (Inl (Error ''Unauthorized: only content owner can unpin''), st_hello)"
    using u [of "''Qmhello''" st_hello bob, THEN conjunct2, THEN conjunct1] h
    by (simp add: bob_def)
  have rm: "pin_rm (client env0) ''Qmhello'' (backing st_hello) = (Inr (), [])"
    by (simp add: env0_def memory_client_def st_hello_def cid_of_def)
  have 3: "unpin env0 ''Qmhello'' alice st_hello =
      (Inr True, st_hello\<lparr>backing := [], ledger := deleteOne ''Qmhello'' (ledger st_hello)\<rparr>)"
    using u [of "''Qmhello''" st_hello alice, THEN conjunct2, THEN conjunct2] h rm
    by (simp add: alice_def env0_def)
  have "st_hello\<lparr>backing := [], ledger := deleteOne ''Qmhello'' (ledger st_hello)\<rparr> = st0"
    by (simp add: st_hello_def st0_def)
  with f n 1 2 3 show ?thesis by simp
qed

text \<open>
  C4: whenever \<open>unpin\<close> fails, the ledger is left as it was. The removal of the
  backing pin comes before the deletion from the ledger: when the removal fails,
  \<open>unpin\<close> fails with its error and only the state of the IPFS node is what the
  failed removal left. After a failure for a caller who is not the owner, the document
  is still the one found for the CID, with its owner.
\<close>

theorem unpin_failure_keeps_ledger:
  "(\<forall>e. fst (unpin env c who st) = Inl e \<longrightarrow> ledger (snd (unpin env c who st)) = ledger st) \<and>
   (\<forall>p e b'. db_fault env FindOne = None \<and> findOne c (ledger st) = Some p \<and>
             owner p = walletId who \<and> pin_rm (client env) c (backing st) = (Inl e, b') \<longrightarrow>
      unpin env c who st = (Inl e, st\<lparr>backing := b'\<rparr>)) \<and>
   (\<forall>p. db_fault env FindOne = None \<and> findOne c (ledger st) = Some p \<and>
         owner p \<noteq> walletId who \<longrightarrow>
      fst (unpin env c who st) = Inl (Error ''Unauthorized: only content owner can unpin'') \<and>
      findOne c (ledger (snd (unpin env c who st))) = Some p)"
  by (auto simp: unpin_def split: option.splits sum.splits prod.splits)

theorem unpin_failure_keeps_ledger_witness:
  "fst (unpin env0 ''Qmother'' alice st_hello) = Inl (Error ''Content not pinned'') \<and>
   ledger (snd (unpin env0 ''Qmother'' alice st_hello)) = ledger st_hello \<and>
   unpin env_rm_fails ''Qmhello'' alice st_hello = (Inl (Rejected ''rm failed''), st_hello) \<and>
   fst (unpin env0 ''Qmhello'' bob st_hello) =
     Inl (Error ''Unauthorized: only content owner can unpin'') \<and>
   findOne ''Qmhello'' (ledger (snd (unpin env0 ''Qmhello'' bob st_hello))) =
     Some \<lparr>cid = ''Qmhello'', owner = ''alice'', timestamp = 0\<rparr>"
proof -
  let ?p = "\<lparr>cid = ''Qmhello'', owner = ''alice'', timestamp = 0\<rparr>"
  have h: "findOne ''Qmhello'' (ledger st_hello) = Some ?p"
    by (simp add: findOne_def st_hello_def)
  have 0: "fst (unpin env0 ''Qmother'' alice st_hello) = Inl (Error ''Content not pinned'')"
    by (simp add: unpin_def env0_def findOne_def st_hello_def)
  with unpin_failure_keeps_ledger [of env0 "''Qmother''" alice st_hello, THEN conjunct1]
  have 1: "ledger (snd (unpin env0 ''Qmother'' alice st_hello)) = ledger st_hello"
    by blast
  have rm: "pin_rm (client env_rm_fails) ''Qmhello'' (backing st_hello) =
      (Inl (Rejected ''rm failed''), backing st_hello)"
    by (simp add: env_rm_fails_def env0_def)
  have f: "db_fault env_rm_fails FindOne = None" "db_fault env0 FindOne = None"
    by (simp_all add: env_rm_fails_def env0_def)
  have 2: "unpin env_rm_fails ''Qmhello'' alice st_hello = (Inl (Rejected ''rm failed''), st_hello)"
    using unpin_failure_keeps_ledger [of env_rm_fails "''Qmhello''" alice st_hello,
        THEN conjunct2, THEN conjunct1] h rm f(1)
    by (simp add: alice_def)
  have 3: "fst (unpin env0 ''Qmhello'' bob st_hello) =
       Inl (Error ''Unauthorized: only content owner can unpin'') \<and>
     findOne ''Qmhello'' (ledger (snd (unpin env0 ''Qmhello'' bob st_hello))) = Some ?p"
    using unpin_failure_keeps_ledger [of env0 "''Qmhello''" bob st_hello,
        THEN conjunct2, THEN conjunct2] h f(2)
    by (simp add: bob_def)
  from 0 1 2 3 show ?thesis by simp
qed

text \<open>
  C5 does not hold of the code: \<open>pin\<close> creates a pin document without looking for an
  existing one, and nothing makes the CID unique in the collection. Pinning the same
  content twice succeeds twice and leaves two documents with the same CID, against the
  comment on \<open>_Pin.cid\<close> (should be unique in the collection).
\<close>

theorem pin_twice_two_records:
  "pin env0 ''hello'' alice False st0 = (Inr ''Qmhello'', st_hello) \<and>
   fst (pin env0 ''hello'' alice False st_hello) = Inr ''Qmhello'' \<and>
   ledger (snd (pin env0 ''hello'' alice False st_hello)) =
     [\<lparr>cid = ''Qmhello'', owner = ''alice'', timestamp = 0\<rparr>,
      \<lparr>cid = ''Qmhello'', owner = ''alice'', timestamp = 0\<rparr>]"
  by (simp add: pin_def pinModel_create_def env0_def memory_client_def cid_of_def st0_def
      st_hello_def alice_def)

text \<open>
  C6, as the specification states it, does not hold. The event that \<open>pin\<close> gives to
  the event emitter has the topic \<open>ipfs:write\<close>, and the replication listener is
  registered for \<open>ipfs:broadcast:write\<close>: delivering the event emitted by a pin runs
  no listener of this code and leaves the ledger with the one document of the pin; had
  the listener received it, there would be two. And a failing broadcast does fail the
  pin: on the node as \<open>IpfsModule\<close> builds it, without an emitter, a broadcasting pin
  throws a \<open>TypeError\<close> after the document has been written, and so it does with the
  error of a subscriber of \<open>ipfs:write\<close> that throws.
\<close>

theorem broadcast_not_received_counterexample:
  "emitted (snd (pin env0 ''hello'' alice True st0)) =
     [(''ipfs:write'', \<lparr>content = ''hello'', sender = alice\<rparr>)] \<and>
   deliver env0 (''ipfs:write'', \<lparr>content = ''hello'', sender = alice\<rparr>)
     (snd (pin env0 ''hello'' alice True st0)) = snd (pin env0 ''hello'' alice True st0) \<and>
   length (ledger (snd (pin env0 ''hello'' alice True st0))) = 1 \<and>
   length (ledger (snd (handleIpfsBroadcastWrite env0 \<lparr>content = ''hello'', sender = alice\<rparr>
     (snd (pin env0 ''hello'' alice True st0))))) = 2 \<and>
   pin env_module ''hello'' alice True st0 = (Inl TypeError, st_hello) \<and>
   fst (pin env_subscriber_throws ''hello'' alice True st0) = Inl (Error ''subscriber failed'') \<and>
   ledger (snd (pin env_subscriber_throws ''hello'' alice True st0)) = ledger st_hello"
  by (simp add: pin_def pinModel_create_def deliver_def subscriptions_def
      handleIpfsBroadcastWrite_def env0_def env_module_def env_subscriber_throws_def
      memory_client_def cid_of_def st0_def st_hello_def alice_def)

text \<open>
  C6, amended: what \<open>pin\<close> does to the IPFS node and to the ledger is the same with
  and without broadcasting, and without broadcasting it does not use the emitter. When
  the content injection and the ledger write succeed and the node has an emitter, a pin
  with \<open>broadcast\<close> gives it one \<open>ipfs:write\<close> event with the content and the owner,
  after the ledger write, and returns the CID when the emitter returns; when they fail,
  nothing is emitted. No listener of this code is registered for \<open>ipfs:write\<close>. The
  replication listener is registered for \<open>ipfs:broadcast:write\<close>; on a payload it does
  what \<open>pin\<close> does with broadcasting disabled, and it never throws: where that pin
  fails it returns \<open>false\<close>. What a failing emitter does to the pin is left out.
\<close>

theorem broadcast_and_listener:
  "backing (snd (pin env text who True st)) = backing (snd (pin env text who False st)) \<and>
   ledger (snd (pin env text who True st)) = ledger (snd (pin env text who False st)) \<and>
   emitted (snd (pin env text who False st)) = emitted st \<and>
   pin (env\<lparr>eventEmitter := em\<rparr>) text who False st = pin env text who False st \<and>
   (\<forall>e. fst (pin env text who False st) = Inl e \<longrightarrow>
      pin env text who True st = pin env text who False st) \<and>
   (\<forall>emit c. eventEmitter env = Some emit \<and> fst (pin env text who False st) = Inr c \<longrightarrow>
      emitted (snd (pin env text who True st)) =
        emitted st @ [(''ipfs:write'', \<lparr>content = text, sender = who\<rparr>)] \<and>
      (emit ''ipfs:write'' \<lparr>content = text, sender = who\<rparr> = None \<longrightarrow>
         fst (pin env text who True st) = Inr c)) \<and>
   deliver env (''ipfs:write'', p) st = st \<and>
   deliver env (''ipfs:broadcast:write'', p) st = snd (handleIpfsBroadcastWrite env p st) \<and>
   snd (handleIpfsBroadcastWrite env p st) = snd (pin env (content p) (sender p) False st) \<and>
   fst (handleIpfsBroadcastWrite env p st) =
     (if isl (fst (pin env (content p) (sender p) False st)) then Inr (Bool False)
      else Inr Undefined)"
proof -
  have 1: "backing (snd (pin env text who True st)) = backing (snd (pin env text who False st))"
    by (simp add: pin_def Let_def split: prod.splits sum.splits option.splits)
  have 2: "ledger (snd (pin env text who True st)) = ledger (snd (pin env text who False st))"
    by (simp add: pin_def Let_def split: prod.splits sum.splits option.splits)
  have 3: "emitted (snd (pin env text who False st)) = emitted st"
    by (simp add: pin_def Let_def split: prod.splits sum.splits option.splits)
  have 4: "pin (env\<lparr>eventEmitter := em\<rparr>) text who False st = pin env text who False st"
  proof -
    have "pinModel_create (env\<lparr>eventEmitter := em\<rparr>) c w = pinModel_create env c w" for c w
      by (simp add: pinModel_create_def split: option.splits)
    then show ?thesis by (simp add: pin_def Let_def split: prod.splits sum.splits)
  qed
  have 5: "pin env text who True st = pin env text who False st"
    if "fst (pin env text who False st) = Inl e" for e
    using that by (simp add: pin_def Let_def split: prod.splits sum.splits option.splits)
  have 6: "emitted (snd (pin env text who True st)) =
        emitted st @ [(''ipfs:write'', \<lparr>content = text, sender = who\<rparr>)] \<and>
      (emit ''ipfs:write'' \<lparr>content = text, sender = who\<rparr> = None \<longrightarrow>
         fst (pin env text who True st) = Inr c)"
    if "eventEmitter env = Some emit" "fst (pin env text who False st) = Inr c" for emit c
    using that by (auto simp: pin_def Let_def split: prod.splits sum.splits option.splits)
  have 7: "deliver env (''ipfs:write'', p) st = st"
    by (simp add: deliver_def subscriptions_def)
  have 8: "deliver env (''ipfs:broadcast:write'', p) st = snd (handleIpfsBroadcastWrite env p st)"
    by (simp add: deliver_def subscriptions_def)
  have 9: "snd (handleIpfsBroadcastWrite env p st) = snd (pin env (content p) (sender p) False st)"
    by (simp add: handleIpfsBroadcastWrite_def split: prod.splits sum.splits)
  have 10: "fst (handleIpfsBroadcastWrite env p st) =
     (if isl (fst (pin env (content p) (sender p) False st)) then Inr (Bool False)
      else Inr Undefined)"
    by (simp add: handleIpfsBroadcastWrite_def split: prod.splits sum.splits)
  from 1 2 3 4 5 6 7 8 9 10 show ?thesis by (intro conjI allI impI) blast+
qed

theorem broadcast_and_listener_witness:
  "eventEmitter env0 = Some (\<lambda>topic p. None) \<and>
   fst (pin env0 ''hello'' alice False st0) = Inr ''Qmhello'' \<and>
   fst (pin env0 ''hello'' alice True st0) = Inr ''Qmhello'' \<and>
   emitted (snd (pin env0 ''hello'' alice True st0)) =
     [(''ipfs:write'', \<lparr>content = ''hello'', sender = alice\<rparr>)] \<and>
   fst (pin env0 ''hello'' \<lparr>walletId = ''''\<rparr> False st0) = Inl (ValidationError [''owner'']) \<and>
   pin env0 ''hello'' \<lparr>walletId = ''''\<rparr> True st0 =
     pin env0 ''hello'' \<lparr>walletId = ''''\<rparr> False st0 \<and>
   fst (handleIpfsBroadcastWrite env0 \<lparr>content = ''hello'', sender = alice\<rparr> st0) = Inr Undefined \<and>
   fst (handleIpfsBroadcastWrite (env0\<lparr>db_fault := (\<lambda>operation. Some (Rejected ''db down''))\<rparr>)
        \<lparr>content = ''hello'', sender = alice\<rparr> st0) = Inr (Bool False)"
proof -
  let ?p = "\<lparr>content = ''hello'', sender = alice\<rparr>"
  let ?down = "env0\<lparr>db_fault := (\<lambda>operation. Some (Rejected ''db down''))\<rparr>"
  have em: "eventEmitter env0 = Some (\<lambda>topic p. None)"
    by (simp add: env0_def)
  have ok: "fst (pin env0 ''hello'' alice False st0) = Inr ''Qmhello''"
    by (simp add: pin_def pinModel_create_def env0_def memory_client_def cid_of_def st0_def alice_def)
  have ko: "fst (pin ?down ''hello'' alice False st0) = Inl (Rejected ''db down'')"
    by (simp add: pin_def pinModel_create_def env0_def memory_client_def cid_of_def st0_def alice_def)
  have bad: "fst (pin env0 ''hello'' \<lparr>walletId = ''''\<rparr> False st0) =
      Inl (ValidationError [''owner''])"
    by (simp add: pin_def pinModel_create_def env0_def memory_client_def cid_of_def st0_def)
  note b = broadcast_and_listener [of env0 "''hello''" alice st0 _ ?p]
  note d = broadcast_and_listener [of ?down "''hello''" alice st0 _ ?p]
  note v = broadcast_and_listener [of env0 "''hello''" "\<lparr>walletId = ''''\<rparr>" st0 _ ?p]
  note emits = b [THEN conjunct2, THEN conjunct2, THEN conjunct2, THEN conjunct2, THEN conjunct2,
      THEN conjunct1, rule_format, OF conjI, OF em ok]
  from emits have 1: "fst (pin env0 ''hello'' alice True st0) = Inr ''Qmhello''" by simp
  from emits have 2: "emitted (snd (pin env0 ''hello'' alice True st0)) = [(''ipfs:write'', ?p)]"
    by (simp add: st0_def)
  note same = v [THEN conjunct2, THEN conjunct2, THEN conjunct2, THEN conjunct2,
      THEN conjunct1, rule_format, OF bad]
  note listener = b [THEN conjunct2, THEN conjunct2, THEN conjunct2, THEN conjunct2, THEN conjunct2,
      THEN conjunct2, THEN conjunct2, THEN conjunct2, THEN conjunct2]
  note listener_down = d [THEN conjunct2, THEN conjunct2, THEN conjunct2, THEN conjunct2, THEN conjunct2,
      THEN conjunct2, THEN conjunct2, THEN conjunct2, THEN conjunct2]
  from listener ok have 3: "fst (handleIpfsBroadcastWrite env0 ?p st0) = Inr Undefined" by simp
  from listener_down ko have 4: "fst (handleIpfsBroadcastWrite ?down ?p st0) = Inr (Bool False)" by simp
  from em ok 1 2 bad same 3 4 show ?thesis by (intro conjI)
qed

section \<open>Properties of the service\<close>

lemma providers_new:
  assumes "ptype n = node" "ptype g = gateway"
  shows "call (IpfsService_new [n, g]) node method arg = method n arg"
    and "call (IpfsService_new [n, g]) gateway method arg = method g arg"
  using assms by (simp_all add: call_def IpfsService_new_def)

text \<open>
  C9: for the service over the node provider and the gateway provider, \<open>get\<close> returns
  what the node provider returns when that succeeds, and otherwise, when the node
  provider fails, what the gateway provider does; it fails only when both fail, with the
  error of the gateway provider. \<open>getFile\<close> is the other way round: the gateway provider
  first, the node provider when that fails.
\<close>

theorem facade_read_order:
  assumes "ptype n = node" "ptype g = gateway" "svc = IpfsService_new [n, g]"
  shows "(\<forall>r. get n CID = Some (Inr r) \<longrightarrow> IpfsService_get svc CID = Some (Inr r)) \<and>
         (\<forall>e. get n CID = Some (Inl e) \<longrightarrow> IpfsService_get svc CID = get g CID) \<and>
         (\<forall>e. IpfsService_get svc CID = Some (Inl e) \<longrightarrow>
            (\<exists>e'. get n CID = Some (Inl e')) \<and> get g CID = Some (Inl e)) \<and>
         (\<forall>r. getFile g ipfsUrl = Some (Inr r) \<longrightarrow>
            IpfsService_getFile svc ipfsUrl = Some (Inr r)) \<and>
         (\<forall>e. getFile g ipfsUrl = Some (Inl e) \<longrightarrow>
            IpfsService_getFile svc ipfsUrl = getFile n ipfsUrl) \<and>
         (\<forall>e. IpfsService_getFile svc ipfsUrl = Some (Inl e) \<longrightarrow>
            (\<exists>e'. getFile g ipfsUrl = Some (Inl e')) \<and> getFile n ipfsUrl = Some (Inl e))"
  unfolding assms(3)
  by (auto simp: IpfsService_get_def IpfsService_getFile_def providers_new [OF assms(1,2)]
      split: option.splits sum.splits)

theorem facade_read_order_witness:
  "ptype node_hello = node \<and> ptype gateway_A = gateway \<and>
   IpfsService_get (IpfsService_new [node_hello, gateway_A]) ''Qmhello'' =
     Some (Inr (Obj [(''data'', Str ''hello'')])) \<and>
   IpfsService_get (IpfsService_new [node_hello, gateway_A]) ''Qm'' = Some (Inr (Str ''A'')) \<and>
   IpfsService_get (IpfsService_new [node_hello, gateway_A]) ''Qmx'' =
     Some (Inl (AggregateError [Some (Rejected ''down''), Some (Rejected ''down'')])) \<and>
   IpfsService_getFile (IpfsService_new [node_hello, gateway_A]) ''ipfs://Qm'' =
     Some (Inr (Obj [(''data'', Obj [(''buffer'', Buf ''A''), (''type'', Undefined)])])) \<and>
   IpfsService_getFile (IpfsService_new [node_hello, gateway_A]) ''ipfs://Qmhello'' =
     Some (Inr (Obj [(''data'', Obj [(''buffer'', Buf ''hello''), (''type'', Undefined)])])) \<and>
   IpfsService_getFile (IpfsService_new [node_hello, gateway_A]) ''ipfs://Qmx'' =
     Some (Inl (Rejected ''timeout''))"
proof -
  have t: "ptype node_hello = node" "ptype gateway_A = gateway"
    by (simp_all add: node_hello_def gateway_A_def node_provider_def gateway_provider_def)
  note f = facade_read_order [OF t refl]
  have n1: "get node_hello ''Qmhello'' = Some (Inr (Obj [(''data'', Str ''hello'')]))"
    by code_simp
  have n2: "get node_hello ''Qm'' = Some (Inl (Rejected ''timeout''))"
    by code_simp
  have n3: "get node_hello ''Qmx'' = Some (Inl (Rejected ''timeout''))"
    by code_simp
  have g2: "get gateway_A ''Qm'' = Some (Inr (Str ''A''))"
    by code_simp
  have g3: "get gateway_A ''Qmx'' =
      Some (Inl (AggregateError [Some (Rejected ''down''), Some (Rejected ''down'')]))"
    by code_simp
  have h1: "getFile gateway_A ''ipfs://Qm'' =
      Some (Inr (Obj [(''data'', Obj [(''buffer'', Buf ''A''), (''type'', Undefined)])]))"
    by code_simp
  have h2: "getFile gateway_A ''ipfs://Qmhello'' =
      Some (Inl (AggregateError [Some (Rejected ''down''), Some (Rejected ''down'')]))"
    by code_simp
  have h3: "getFile gateway_A ''ipfs://Qmx'' =
      Some (Inl (AggregateError [Some (Rejected ''down''), Some (Rejected ''down'')]))"
    by code_simp
  have m2: "getFile node_hello ''ipfs://Qmhello'' =
      Some (Inr (Obj [(''data'', Obj [(''buffer'', Buf ''hello''), (''type'', Undefined)])]))"
    by code_simp
  have m3: "getFile node_hello ''ipfs://Qmx'' = Some (Inl (Rejected ''timeout''))"
    by code_simp
  note get_first = f [THEN conjunct1, rule_format]
  note get_fallback = f [THEN conjunct2, THEN conjunct1, rule_format]
  note getFile_first = f [THEN conjunct2, THEN conjunct2, THEN conjunct2, THEN conjunct1, rule_format]
  note getFile_fallback =
    f [THEN conjunct2, THEN conjunct2, THEN conjunct2, THEN conjunct2, THEN conjunct1, rule_format]
  have 1: "IpfsService_get (IpfsService_new [node_hello, gateway_A]) ''Qmhello'' =
      Some (Inr (Obj [(''data'', Str ''hello'')]))"
    by (rule get_first [OF n1])
  have 2: "IpfsService_get (IpfsService_new [node_hello, gateway_A]) ''Qm'' = Some (Inr (Str ''A''))"
    unfolding get_fallback [OF n2] by (rule g2)
  have 3: "IpfsService_get (IpfsService_new [node_hello, gateway_A]) ''Qmx'' =
      Some (Inl (AggregateError [Some (Rejected ''down''), Some (Rejected ''down'')]))"
    unfolding get_fallback [OF n3] by (rule g3)
  have 4: "IpfsService_getFile (IpfsService_new [node_hello, gateway_A]) ''ipfs://Qm'' =
      Some (Inr (Obj [(''data'', Obj [(''buffer'', Buf ''A''), (''type'', Undefined)])]))"
    by (rule getFile_first [OF h1])
  have 5: "IpfsService_getFile (IpfsService_new [node_hello, gateway_A]) ''ipfs://Qmhello'' =
      Some (Inr (Obj [(''data'', Obj [(''buffer'', Buf ''hello''), (''type'', Undefined)])]))"
    unfolding getFile_fallback [OF h2] by (rule m2)
  have 6: "IpfsService_getFile (IpfsService_new [node_hello, gateway_A]) ''ipfs://Qmx'' =
      Some (Inl (Rejected ''timeout''))"
    unfolding getFile_fallback [OF h3] by (rule m3)
  from t 1 2 3 4 5 6 show ?thesis by (intro conjI)
qed

text \<open>
  C8 does not hold of the code: for the same content \<open>hello\<close>, \<open>_Node.get\<close> resolves
  to the object \<open>{ data: "hello" }\<close>, as \<open>_Base.get\<close> declares, and \<open>_Gateway.get\<close>
  to the bare \<open>"hello"\<close>. The caller sees the difference: \<open>readContent\<close> returns
  \<open>"hello"\<close> when the node provider answers, and \<open>undefined\<close> when the node provider
  fails and the gateway provider answers.
\<close>

theorem get_result_shapes_differ:
  "Node_get JSON_fragment memory_client [''hello''] ''Qmhello'' =
     Inr (Obj [(''data'', Str ''hello'')]) \<and>
   Gateway_get two_gateways serve_hello [0, 1] ''Qmhello'' = Some (Inr (Str ''hello'')) \<and>
   readContent
     (IpfsService_new [node_provider JSON_fragment no_type memory_client [''hello''],
        gateway_provider no_type two_gateways serve_hello [0, 1]]) ''Qmhello'' =
     Some (Inr (Str ''hello'')) \<and>
   readContent
     (IpfsService_new [node_provider JSON_fragment no_type memory_client [],
        gateway_provider no_type two_gateways serve_hello [0, 1]]) ''Qmhello'' =
     Some (Inr Undefined)"
  by code_simp

end
